theory Spec2Isabelle
  imports Complex_Main "HOL-Library.Log_Nat"
begin

section \<open>Routing: sections and URL paths (src/src/App.tsx, lines 36-91)\<close>

text \<open>
  The navigation bar is the array \<open>nav\<close> of four entries; \<open>navItems\<close> is the list of their
  names. Section names and URL paths are JavaScript strings, compared by the \<open>switch\<close>
  statements with strict equality: they are modelled as \<open>string\<close>.
\<close>

definition navItems :: "string list" where
  "navItems = [''Home'', ''Highlights'', ''About'', ''Contact'']"

text \<open>The four URL paths of the site, in the order of the sections they belong to.\<close>

definition sitePaths :: "string list" where
  "sitePaths = [''/'', ''/highlights'', ''/about'', ''/contact'']"

text \<open>\<open>toPath\<close>: the \<open>switch\<close> of lines 48-61, with its \<open>default\<close> branch.\<close>

definition toPath :: "string \<Rightarrow> string" where
  "toPath section' =
     (if section' = ''Home'' then ''/''
      else if section' = ''Highlights'' then ''/highlights''
      else if section' = ''About'' then ''/about''
      else if section' = ''Contact'' then ''/contact''
      else ''/'')"

text \<open>
  \<open>toSection\<close>: the \<open>switch\<close> of lines 63-77. The cases \<open>'/'\<close> and \<open>'/home'\<close> fall through
  to the same \<open>return\<close>; every other string reaches \<open>default\<close>.
\<close>

definition toSection :: "string \<Rightarrow> string" where
  "toSection pathname' =
     (if pathname' = ''/'' \<or> pathname' = ''/home'' then ''Home''
      else if pathname' = ''/highlights'' then ''Highlights''
      else if pathname' = ''/about'' then ''About''
      else if pathname' = ''/contact'' then ''Contact''
      else ''Home'')"

section \<open>The fixed event list and the hero images (lines 308-386)\<close>

text \<open>
  An entry of \<open>highlightsEvents\<close> (the interface \<open>Event\<close>, lines 398-407). The fields \<open>id\<close>
  and \<open>image\<close> carry a suffix, since HOL has constants of these names. Identifiers are the
  small non-negative integers of the source. Texts are the bytes of the source file (UTF-8);
  bytes outside printable ASCII are written \<open>CHR 0x..\<close>.
\<close>

record event =
  id_ev :: nat
  title :: string
  award :: string
  image_ev :: string
  background :: string
  description :: string
  stats :: "(string \<times> string) list"
  gallery :: "string list"

definition highlightsEvents :: "event list" where
  "highlightsEvents =
     [\<lparr>id_ev = 1,
      title = ''Andrea O. Veneracion International Choral Festival 2025'',
      award = ''Manila, Philippines'',
      image_ev = ''/images/AOV25/main.webp'',
      background = ''from-black via-red-900/30 to-black'',
      description =
        ''The 6th Andrea O. Veneracion International Choral Festival, held at the Aret'' @ [CHR 0xC3, CHR 0x83, CHR 0xC2, CHR 0xA9] @ '' in Manila, gathered 34 choirs and over 1,200 singers from around the world in a celebration of choral excellence and cultural exchange. Among the participating ensembles, Harmonia Polifonica Chorale earned distinction by receiving Double Gold Diplomas in both the Folk Song and Musica Sacra categories. Beyond the accolades, this achievement reflects the dedication and perseverance of its student-singers, who balanced academic responsibilities with rigorous artistic preparation, embodying discipline, commitment, and passion for choral music.'',
      stats = [(''Gold Diploma'', ''Musica Sacra Category''),
        (''Gold Diploma'', ''Folk Song Category'')],
      gallery = [''/images/AOV25/1.webp'',
        ''/images/AOV25/2.webp'',
        ''/images/AOV25/3.webp'',
        ''/images/AOV25/4.webp'']\<rparr>,
      \<lparr>id_ev = 2,
      title = ''Himig Handog International Choral Festival 2025'',
      award = ''Tagum City, Philippines'',
      image_ev = ''/images/M25/main.webp'',
      background = ''from-red-950 via-orange-900/40 to-black'',
      description =
        ''The Himig Handog International Choral Competition 2025 is an international choral festival that gathers choirs from different regions to celebrate excellence in choral performance, musical interpretation, and cultural expression. The event features multiple competition categories and culminates in a Grand Prix round. During the competition, Harmonia Polifonica Chorale achieved 3rd Place in the Grand Prix and received distinctions in the Mixed and Folklore categories, including recognition for musical interpretation. The event highlighted artistic discipline, collaboration, and the shared passion of participating ensembles for choral music.'',
      stats = [(''3rd Place'', ''Grand Prix Finals''),
        (''Champion'', ''Mixed Category''),
        (''Best Interpretation'', ''Mixed Category''),
        (''2nd Place'', ''Folklore Category'')],
      gallery = [''/images/M25/1.webp'',
        ''/images/M25/3.webp'',
        ''/images/M25/2.webp'',
        ''/images/M25/4.webp'']\<rparr>,
      \<lparr>id_ev = 3,
      title = ''Himig Handog International Choral Festival 2024'',
      award = ''Tagum City, Philippines'',
      image_ev = ''/images/M24/main.webp'',
      background = ''from-red-950 via-orange-900/40 to-black'',
      description =
        ''The 21st Musikahan sa Tagum Festival Himig Handog International Choir Grand Prix 2024 is a choral competition that brings together local and international choirs in a celebration of musical excellence and cultural expression. As part of the festival, participating ensembles compete in various categories, culminating in the Grand Prix Finals. Harmonia Polifonica Chorale marked its return to Musikahan sa Tagum after its last appearance in 2016, participating in the competition and earning distinctions in the Mixed and Folk categories, as well as in the Grand Prix Finals. The event highlighted the choir'' @ [CHR 0xC3, CHR 0xA2, CHR 0xE2, CHR 0x82, CHR 0xAC, CHR 0xE2, CHR 0x84, CHR 0xA2] @ ''s renewed presence on the choral stage and its continued commitment to artistic growth and performance.'',
      stats = [(''2nd Prize'', ''Grand Prix Finals''),
        (''2nd Prize'', ''Folk Category''),
        (''4th Place'', ''Mixed Category'')],
      gallery = [''/images/M24/1.webp'',
        ''/images/M24/3.webp'',
        ''/images/M24/2.webp'',
        ''/images/M24/4.webp'']\<rparr>,
      \<lparr>id_ev = 4,
      title = ''Andrea O. Veneracion International Choral Festival 2023'',
      award = ''Makati City, Philippines'',
      image_ev = ''/images/AOV23/main.webp'',
      background = ''from-red-950 via-orange-900/40 to-black'',
      description =
        ''On July 23rd, Harmonia Polifonica Chorale marked a significant milestone as it returned to the international stage at the Andrea O. Veneracion International Choral Festival in Makati City after several years of hiatus. Competing among choirs from various regions, HPC proudly earned Gold Diplomas in both the Folk Song and Mixed Choir categories, demonstrating the choir'' @ [CHR 0xC3, CHR 0xA2, CHR 0xE2, CHR 0x82, CHR 0xAC, CHR 0xE2, CHR 0x84, CHR 0xA2] @ ''s dedication, artistry, and resilience. This event celebrated not only the choir'' @ [CHR 0xC3, CHR 0xA2, CHR 0xE2, CHR 0x82, CHR 0xAC, CHR 0xE2, CHR 0x84, CHR 0xA2] @ ''s musical achievements but also its successful re-emergence on the international choral scene.'',
      stats = [(''Gold Diploma'', ''Mixed Choir Category''),
        (''Gold Diploma'', ''Folk Song Category'')],
      gallery = [''/images/AOV23/1.webp'',
        ''/images/AOV23/4.webp'',
        ''/images/AOV23/3.webp'',
        ''/images/AOV23/2.webp'']\<rparr>]"

text \<open>Line 386: \<open>heroImages = highlightsEvents.map((event) => event.image)\<close>.\<close>

definition heroImages :: "string list" where
  "heroImages = map image_ev highlightsEvents"

section \<open>Component state and its transitions\<close>

text \<open>
  The \<open>useState\<close> variables of \<open>App\<close> (lines 29-34) and \<open>location.pathname\<close> of the router
  (line 46). \<open>selectedEventId\<close> has type \<open>number | null\<close>: \<open>None\<close> is \<open>null\<close>.
\<close>

record app_state =
  activeSection :: string
  selectedEventId :: "nat option"
  userEmail :: string
  userName :: string
  userPhone :: string
  currentHeroIndex :: nat
  pathname :: string

text \<open>The state at mount, when the page is opened at the path \<open>p\<close>.\<close>

definition initial_state :: "string \<Rightarrow> app_state" where
  "initial_state p =
     \<lparr>activeSection = ''Home'', selectedEventId = None, userEmail = '''', userName = '''',
      userPhone = '''', currentHeroIndex = 0, pathname = p\<rparr>"

text \<open>
  Everything that calls a state setter or changes the location:
  \<^item> \<open>NavClick name\<close>: a button of the navigation bar (lines 1001 and 1032); the bar has one
    button for each entry of \<open>nav\<close>;
  \<^item> \<open>AboutUsClick\<close>: the button of the home view (line 555);
  \<^item> \<open>ExploreClick i\<close>: the button of the card of the event with identifier \<open>i\<close> (line 673);
    there is one card for each entry of \<open>highlightsEvents\<close>;
  \<^item> \<open>BackClick\<close>: the back button of the detail view (line 421);
  \<^item> \<open>DotClick i\<close>: the \<open>i\<close>-th dot of the carousel (line 617); the dots are rendered from
    \<open>heroImages.map\<close>, and only when \<open>heroImages.length > 1\<close> (line 612);
  \<^item> \<open>HeroTick\<close>: the interval callback (line 392); the interval is installed only when
    \<open>heroImages.length\<close> is not zero (line 389);
  \<^item> \<open>EmailInput\<close>, \<open>NameInput\<close>, \<open>PhoneInput\<close>: the \<open>onChange\<close> handlers of the form fields
    (lines 874, 889, 906);
  \<^item> \<open>LocationChange p\<close>: the browser moves to the path \<open>p\<close> (back, forward, deep link);
  \<^item> \<open>PathnameEffect\<close>: the effect of lines 80-84;
  \<^item> \<open>SectionEffect\<close>: the effect of lines 87-91.
\<close>

datatype input =
    NavClick string
  | AboutUsClick
  | ExploreClick nat
  | BackClick
  | DotClick nat
  | HeroTick
  | EmailInput string
  | NameInput string
  | PhoneInput string
  | LocationChange string
  | PathnameEffect
  | SectionEffect

text \<open>
  One transition. The result is \<open>None\<close> when the page has no such control (no navigation
  button of that name, no card of that identifier, no dot of that index, no interval).
  Which section is on screen restricts the controls further; the model lets the handler of
  every existing control run in every state, which only adds transitions.
\<close>

fun step :: "app_state \<Rightarrow> input \<Rightarrow> app_state option" where
  "step s (NavClick name) =
     (if name \<in> set navItems
      then Some (s\<lparr>activeSection := name, selectedEventId := None\<rparr>) else None)"
| "step s AboutUsClick = Some (s\<lparr>activeSection := ''About''\<rparr>)"
| "step s (ExploreClick i) =
     (if i \<in> set (map id_ev highlightsEvents)
      then Some (s\<lparr>selectedEventId := Some i\<rparr>) else None)"
| "step s BackClick = Some (s\<lparr>selectedEventId := None\<rparr>)"
| "step s (DotClick i) =
     (if 1 < length heroImages \<and> i < length heroImages
      then Some (s\<lparr>currentHeroIndex := i\<rparr>) else None)"
| "step s HeroTick =
     (if length heroImages = 0 then None
      else Some (s\<lparr>currentHeroIndex := (currentHeroIndex s + 1) mod length heroImages\<rparr>))"
| "step s (EmailInput v) = Some (s\<lparr>userEmail := v\<rparr>)"
| "step s (NameInput v) = Some (s\<lparr>userName := v\<rparr>)"
| "step s (PhoneInput v) = Some (s\<lparr>userPhone := v\<rparr>)"
| "step s (LocationChange p) = Some (s\<lparr>pathname := p\<rparr>)"
| "step s PathnameEffect =
     (let s' = toSection (pathname s)
      in Some (if s' \<noteq> activeSection s then s\<lparr>activeSection := s'\<rparr> else s))"
| "step s SectionEffect =
     (let p = toPath (activeSection s)
      in Some (if pathname s \<noteq> p then s\<lparr>pathname := p\<rparr> else s))"

text \<open>A sequence of transitions, from left to right.\<close>

fun run :: "app_state \<Rightarrow> input list \<Rightarrow> app_state option" where
  "run s [] = Some s"
| "run s (i # is) = (case step s i of None \<Rightarrow> None | Some s' \<Rightarrow> run s' is)"

section \<open>Rendering (lines 409-958)\<close>

text \<open>
  What \<open>renderSection\<close> returns, as far as the content goes: the detail view of an event with
  the fields it shows, the home view with the source of the hero image, the list of event
  cards, the two static views, and \<open>null\<close>.
\<close>

datatype view =
    EventDetail string string string string "(string \<times> string) list" "string list"
  | HomeView string
  | HighlightsView "event list"
  | AboutView
  | ContactView
  | NullView

text \<open>\<open>renderEventDetail\<close> (lines 409-498) shows title, award, image, description, stats, gallery.\<close>

definition renderEventDetail :: "event \<Rightarrow> view" where
  "renderEventDetail e =
     EventDetail (title e) (award e) (image_ev e) (description e) (stats e) (gallery e)"

text \<open>
  Line 605: \<open>heroImages[currentHeroIndex] || '/images/mainImage.webp'\<close>. An index out of
  range reads \<open>undefined\<close>, which is falsy, as the empty string is.
\<close>

definition heroSrc :: "app_state \<Rightarrow> string" where
  "heroSrc s =
     (if currentHeroIndex s < length heroImages \<and> heroImages ! currentHeroIndex s \<noteq> ''''
      then heroImages ! currentHeroIndex s else ''/images/mainImage.webp'')"

text \<open>
  Line 502: \<open>selectedEventId ? highlightsEvents.find(e => e.id === selectedEventId) ?? null : null\<close>.
  The test \<open>selectedEventId ?\<close> is false for \<open>null\<close> and for the number 0.
\<close>

definition selectedEvent :: "app_state \<Rightarrow> event option" where
  "selectedEvent s =
     (case selectedEventId s of
        None \<Rightarrow> None
      | Some i \<Rightarrow> if i = 0 then None else find (\<lambda>e. id_ev e = i) highlightsEvents)"

text \<open>The \<open>switch\<close> of lines 507-957.\<close>

definition sectionView :: "app_state \<Rightarrow> view" where
  "sectionView s =
     (if activeSection s = ''Home'' then HomeView (heroSrc s)
      else if activeSection s = ''Highlights'' then HighlightsView highlightsEvents
      else if activeSection s = ''About'' then AboutView
      else if activeSection s = ''Contact'' then ContactView
      else NullView)"

definition renderSection :: "app_state \<Rightarrow> view" where
  "renderSection s =
     (case selectedEvent s of
        Some e \<Rightarrow> renderEventDetail e
      | None \<Rightarrow> sectionView s)"

text \<open>
  The two invariants of the state: the active section is one of the four names, and a
  selected identifier is the identifier of an entry of \<open>highlightsEvents\<close>.
\<close>

definition state_inv :: "app_state \<Rightarrow> bool" where
  "state_inv s \<longleftrightarrow>
     activeSection s \<in> set navItems \<and>
     (case selectedEventId s of None \<Rightarrow> True | Some i \<Rightarrow> i \<in> set (map id_ev highlightsEvents))"

section \<open>The contact form: \<open>handleSubmit\<close> (lines 93-170)\<close>

text \<open>
  The configuration read from \<open>import.meta.env\<close>: each value is a string or \<open>undefined\<close>
  (\<open>None\<close>). The fields are \<open>VITE_EMAILJS_SERVICE_ID\<close>, \<open>VITE_EMAILJS_TEMPLATE_ID\<close>,
  \<open>VITE_EMAILJS_PUBLIC_KEY\<close>, \<open>VITE_EMAILJS_REPLY_TEMPLATE_ID\<close> and \<open>VITE_REPLY_EMAIL\<close>.
\<close>

record email_env =
  serviceId :: "string option"
  templateId :: "string option"
  publicKey :: "string option"
  replyTemplateId :: "string option"
  replyEmail :: "string option"

text \<open>JavaScript truthiness of such a value: \<open>undefined\<close> and the empty string are falsy.\<close>

definition truthy :: "string option \<Rightarrow> bool" where
  "truthy v = (case v of None \<Rightarrow> False | Some x \<Rightarrow> x \<noteq> '''')"

text \<open>The string of a value that is present.\<close>

definition valueOf :: "string option \<Rightarrow> string" where
  "valueOf v = (case v of None \<Rightarrow> '''' | Some x \<Rightarrow> x)"

text \<open>Line 96: \<open>import.meta.env.VITE_REPLY_EMAIL || 'hpcsingers@gmail.com'\<close>.\<close>

definition replyContactEmail :: "email_env \<Rightarrow> string" where
  "replyContactEmail env =
     (if truthy (replyEmail env) then valueOf (replyEmail env) else ''hpcsingers@gmail.com'')"

text \<open>How a call of the provider's client ends: its promise is fulfilled, rejected, or stays pending.\<close>

datatype outcome = Fulfilled | Rejected | Pending

text \<open>
  What the handler reads from its surroundings:
  \<^item> whether \<open>formRef.current\<close> is an element or \<open>null\<close>, at the three moments the handler
    reads it: when it starts (lines 99 and 135), when the awaited \<open>sendForm\<close> has been
    fulfilled (line 140), and when the timer callback runs (line 122). React sets the ref
    when the form is mounted and sets it to \<open>null\<close> when it is unmounted; the form is part of
    the Contact view only (line 865), so it is unmounted when another section is shown;
  \<^item> whether \<open>window\<close> is defined, and \<open>window.location.hostname\<close>;
  \<^item> how the calls \<open>emailjs.sendForm\<close> and \<open>emailjs.send\<close> end.
\<close>

record submit_world =
  formMounted :: bool
  formMountedAfterSend :: bool
  formMountedAtTimeout :: bool
  windowDefined :: bool
  hostname :: string
  sendFormOutcome :: outcome
  sendOutcome :: outcome

text \<open>
  What the handler does to the outside, in the order it does it. \<open>SendForm\<close> carries the
  service identifier, the template identifier and the public key (the form is the third
  argument of the call); \<open>Send\<close> carries the service identifier, the reply template
  identifier, the parameters and the public key. The console actions carry the first
  argument of the call. \<open>After ms as\<close> is \<open>setTimeout\<close> with a callback that does \<open>as\<close>.
\<close>

datatype action =
    PreventDefault
  | ConsoleError string
  | ConsoleWarn string
  | ConsoleLog string
  | Alert string
  | FormReset
  | SendForm string string string
  | Send string string "(string \<times> string) list" string

datatype effect = Do action | After nat "action list"

text \<open>Lines 144-157; \<open>x || ''\<close> is \<open>x\<close> for a string \<open>x\<close>.\<close>

definition replyParams :: "email_env \<Rightarrow> app_state \<Rightarrow> (string \<times> string) list" where
  "replyParams env s =
     [(''to_email'', userEmail s),
      (''from_name'', userName s),
      (''name'', userName s),
      (''from_email'', userEmail s),
      (''email'', userEmail s),
      (''phone'', userPhone s),
      (''phone_number'', userPhone s),
      (''reply_email'', replyContactEmail env),
      (''message'', ''Thanks '' @ [CHR 0xC3, CHR 0xA2, CHR 0xE2, CHR 0x82, CHR 0xAC, CHR 0xE2, CHR 0x80, CHR 0x9D] @ '' we received your message. We'' @ [CHR 0x27] @ ''ll reply as soon as we can.'')]"

text \<open>The \<open>catch\<close> block (lines 166-169).\<close>

definition catchBlock :: "effect list" where
  "catchBlock =
     [Do (ConsoleError ''EmailJS send error:''),
      Do (Alert ''Failed to send message. Please try again later.'')]"

text \<open>The body of the configuration guard (lines 107-128).\<close>

definition configMissing :: "submit_world \<Rightarrow> effect list" where
  "configMissing w =
     Do (ConsoleError ''Missing EmailJS configuration'') #
     (if windowDefined w \<and> (hostname w = ''localhost'' \<or> hostname w = ''127.0.0.1'')
      then [Do (ConsoleWarn ''Simulating email send on localhost.''),
            After 700 (Alert ''Simulated: Message sent!'' #
                       (if formMountedAtTimeout w then [FormReset] else []))]
      else [Do (Alert ''Email service is not configured. Please try again later.'')])"

text \<open>
  Lines 143-165, the acknowledgement: the call is not awaited; its \<open>then\<close> and \<open>catch\<close>
  callbacks log the result.
\<close>

definition autoReply :: "email_env \<Rightarrow> submit_world \<Rightarrow> app_state \<Rightarrow> effect list" where
  "autoReply env w s =
     (if truthy (replyTemplateId env) \<and> userEmail s \<noteq> ''''
      then Do (Send (valueOf (serviceId env)) (valueOf (replyTemplateId env))
                 (replyParams env s) (valueOf (publicKey env))) #
           (case sendOutcome w of
              Fulfilled \<Rightarrow> [Do (ConsoleLog ''Auto-reply sent to'')]
            | Rejected \<Rightarrow> [Do (ConsoleWarn ''Auto-reply failed:'')]
            | Pending \<Rightarrow> [])
      else [])"

text \<open>
  The \<open>try\<close> block (lines 131-165). A rejected \<open>sendForm\<close> throws at the \<open>await\<close>. When the
  call is fulfilled and \<open>formRef.current\<close> is \<open>null\<close> by then, \<open>formRef.current.reset()\<close>
  throws a \<open>TypeError\<close> after the alert; both reach the \<open>catch\<close> block. While the call is
  pending nothing follows it.
\<close>

definition tryBlock :: "email_env \<Rightarrow> submit_world \<Rightarrow> app_state \<Rightarrow> effect list" where
  "tryBlock env w s =
     Do (SendForm (valueOf (serviceId env)) (valueOf (templateId env)) (valueOf (publicKey env))) #
     (case sendFormOutcome w of
        Pending \<Rightarrow> []
      | Rejected \<Rightarrow> catchBlock
      | Fulfilled \<Rightarrow>
          Do (Alert ''Message sent successfully!'') #
          (if formMountedAfterSend w then Do FormReset # autoReply env w s
           else catchBlock))"

text \<open>\<open>handleSubmit\<close>: the user's fields are those of the state the handler was rendered in.\<close>

definition handleSubmit :: "email_env \<Rightarrow> submit_world \<Rightarrow> app_state \<Rightarrow> effect list" where
  "handleSubmit env w s =
     Do PreventDefault #
     (if \<not> formMounted w then []
      else if \<not> truthy (serviceId env) \<or> \<not> truthy (templateId env) \<or> \<not> truthy (publicKey env)
      then configMissing w
      else tryBlock env w s)"

text \<open>The actions of a trace, those of timer callbacks included, and the network calls among them.\<close>

fun actionsOf :: "effect \<Rightarrow> action list" where
  "actionsOf (Do a) = [a]"
| "actionsOf (After ms as) = as"

definition allActions :: "effect list \<Rightarrow> action list" where
  "allActions es = concat (map actionsOf es)"

fun isSendForm :: "action \<Rightarrow> bool" where
  "isSendForm (SendForm sid tid key) = True"
| "isSendForm a = False"

fun isSend :: "action \<Rightarrow> bool" where
  "isSend (Send sid tid params key) = True"
| "isSend a = False"

definition networkCalls :: "effect list \<Rightarrow> action list" where
  "networkCalls es = filter (\<lambda>a. isSendForm a \<or> isSend a) (allActions es)"

text \<open>The provider configuration is present: the guard of line 106 is passed.\<close>

definition configured :: "email_env \<Rightarrow> bool" where
  "configured env \<longleftrightarrow> truthy (serviceId env) \<and> truthy (templateId env) \<and> truthy (publicKey env)"

text \<open>What the user sees of a trace: the alerts and the resets of the form.\<close>

fun isVisible :: "action \<Rightarrow> bool" where
  "isVisible (Alert m) = True"
| "isVisible FormReset = True"
| "isVisible a = False"

definition visibleOutcome :: "effect list \<Rightarrow> action list" where
  "visibleOutcome es = filter isVisible (allActions es)"

section \<open>JavaScript numbers\<close>

text \<open>
  A JavaScript number is an IEEE 754 binary64 value: \<open>NaN\<close>, an infinity, or a finite
  double, which is a real number of the form \<open>m * 2 ^ e\<close> with an integer \<open>m\<close> of magnitude
  below \<open>2 ^ 53\<close> and \<open>- 1074 \<le> e \<le> 971\<close>. The sign of a zero is not modelled: the two
  zeros are equal in every comparison, and differ only as a divisor.
\<close>

datatype number = NaN | NegInf | Fin real | PosInf

text \<open>Rounding to the nearest integer, ties to the even one.\<close>

definition rne :: "real \<Rightarrow> int" where
  "rne y =
     (let f = \<lfloor>y\<rfloor>; r = y - of_int f
      in if r < 1 / 2 then f
         else if 1 / 2 < r then f + 1
         else if even f then f else f + 1)"

text \<open>For positive \<open>x\<close>, the integer \<open>k\<close> with \<open>2 ^ k \<le> x < 2 ^ (k + 1)\<close>.\<close>

definition ilog2 :: "real \<Rightarrow> int" where
  "ilog2 x = (if 1 \<le> x then bitlen \<lfloor>x\<rfloor> - 1 else - bitlen (\<lceil>1 / x\<rceil> - 1))"

text \<open>
  The exponent of the unit in the last place of \<open>x\<close>: 52 below the binary exponent of \<open>x\<close>
  for a normal number, \<open>- 1074\<close> in the subnormal range.
\<close>

definition expOf :: "real \<Rightarrow> int" where
  "expOf x = max (ilog2 \<bar>x\<bar> - 52) (- 1074)"

text \<open>Rounding to the nearest multiple of the unit in the last place, ties to even.\<close>

definition rnd :: "real \<Rightarrow> real" where
  "rnd x = (if x = 0 then 0 else of_int (rne (x / 2 powi expOf x)) * 2 powi expOf x)"

text \<open>
  The number that represents a real result (round to nearest, ties to even): a result
  that rounds to magnitude \<open>2 ^ 1024\<close> or more overflows to an infinity.
\<close>

definition round64 :: "real \<Rightarrow> number" where
  "round64 x =
     (let y = rnd x
      in if 2 ^ 1024 \<le> y then PosInf
         else if y \<le> - (2 ^ 1024) then NegInf
         else Fin y)"

text \<open>The finite doubles are the real numbers that rounding leaves unchanged.\<close>

definition isDouble :: "real \<Rightarrow> bool" where
  "isDouble x \<longleftrightarrow> round64 x = Fin x"

text \<open>
  The operators \<open>-\<close>, \<open>/\<close>, \<open>*\<close>, \<open><\<close> and \<open><=\<close> on numbers. The results of \<open>-\<close>, \<open>/\<close> and
  \<open>*\<close> on finite numbers are correctly rounded. In \<open>jsDiv\<close> a zero divisor is taken as
  \<open>+0\<close>; \<open>animate\<close> below never divides by a zero.
\<close>

fun jsSub :: "number \<Rightarrow> number \<Rightarrow> number" where
  "jsSub (Fin x) (Fin y) = round64 (x - y)"
| "jsSub NaN y = NaN"
| "jsSub x NaN = NaN"
| "jsSub PosInf PosInf = NaN"
| "jsSub NegInf NegInf = NaN"
| "jsSub PosInf y = PosInf"
| "jsSub NegInf y = NegInf"
| "jsSub (Fin x) PosInf = NegInf"
| "jsSub (Fin x) NegInf = PosInf"

fun jsDiv :: "number \<Rightarrow> number \<Rightarrow> number" where
  "jsDiv (Fin x) (Fin y) =
     (if y = 0 then (if x = 0 then NaN else if 0 < x then PosInf else NegInf)
      else round64 (x / y))"
| "jsDiv NaN y = NaN"
| "jsDiv x NaN = NaN"
| "jsDiv PosInf (Fin y) = (if y < 0 then NegInf else PosInf)"
| "jsDiv NegInf (Fin y) = (if y < 0 then PosInf else NegInf)"
| "jsDiv (Fin x) PosInf = Fin 0"
| "jsDiv (Fin x) NegInf = Fin 0"
| "jsDiv x y = NaN"

fun jsMul :: "number \<Rightarrow> number \<Rightarrow> number" where
  "jsMul (Fin x) (Fin y) = round64 (x * y)"
| "jsMul NaN y = NaN"
| "jsMul x NaN = NaN"
| "jsMul PosInf (Fin y) = (if y = 0 then NaN else if 0 < y then PosInf else NegInf)"
| "jsMul NegInf (Fin y) = (if y = 0 then NaN else if 0 < y then NegInf else PosInf)"
| "jsMul (Fin x) PosInf = (if x = 0 then NaN else if 0 < x then PosInf else NegInf)"
| "jsMul (Fin x) NegInf = (if x = 0 then NaN else if 0 < x then NegInf else PosInf)"
| "jsMul PosInf PosInf = PosInf"
| "jsMul NegInf NegInf = PosInf"
| "jsMul PosInf NegInf = NegInf"
| "jsMul NegInf PosInf = NegInf"

fun jsLess :: "number \<Rightarrow> number \<Rightarrow> bool" where
  "jsLess (Fin x) (Fin y) \<longleftrightarrow> x < y"
| "jsLess NaN y \<longleftrightarrow> False"
| "jsLess x NaN \<longleftrightarrow> False"
| "jsLess x NegInf \<longleftrightarrow> False"
| "jsLess PosInf y \<longleftrightarrow> False"
| "jsLess NegInf y \<longleftrightarrow> True"
| "jsLess (Fin x) PosInf \<longleftrightarrow> True"

fun jsLe :: "number \<Rightarrow> number \<Rightarrow> bool" where
  "jsLe (Fin x) (Fin y) \<longleftrightarrow> x \<le> y"
| "jsLe NaN y \<longleftrightarrow> False"
| "jsLe x NaN \<longleftrightarrow> False"
| "jsLe NegInf y \<longleftrightarrow> True"
| "jsLe x PosInf \<longleftrightarrow> True"
| "jsLe PosInf y \<longleftrightarrow> False"
| "jsLe (Fin x) NegInf \<longleftrightarrow> False"

text \<open>\<open>Math.min\<close> of two numbers and \<open>Math.floor\<close>.\<close>

fun mathMin :: "number \<Rightarrow> number \<Rightarrow> number" where
  "mathMin NaN y = NaN"
| "mathMin x NaN = NaN"
| "mathMin x y = (if jsLess y x then y else x)"

fun mathFloor :: "number \<Rightarrow> number" where
  "mathFloor (Fin x) = Fin (of_int \<lfloor>x\<rfloor>)"
| "mathFloor x = x"

text \<open>
  \<open>Math.pow(x, 4)\<close>. The language fixes the result for \<open>NaN\<close>, the infinities and the zeros;
  for every other base the result is an approximation that the implementation chooses.
  That choice is a parameter: the field \<open>pow4\<close> of the runtime.
\<close>

record runtime =
  pow4 :: "real \<Rightarrow> number"

fun mathPow4 :: "runtime \<Rightarrow> number \<Rightarrow> number" where
  "mathPow4 rt NaN = NaN"
| "mathPow4 rt PosInf = PosInf"
| "mathPow4 rt NegInf = PosInf"
| "mathPow4 rt (Fin x) = (if x = 0 then Fin 0 else pow4 rt x)"

text \<open>A runtime whose \<open>Math.pow\<close> is correctly rounded.\<close>

definition roundedPow :: runtime where
  "roundedPow = \<lparr>pow4 = \<lambda>x. round64 (x ^ 4)\<rparr>"

text \<open>
  A runtime whose \<open>Math.pow(x, 4)\<close>, on the doubles between 0 and 1, has values between
  0 and 1 and does not decrease when \<open>x\<close> grows.
\<close>

definition powMonotone :: "runtime \<Rightarrow> bool" where
  "powMonotone rt \<longleftrightarrow>
     (\<forall>x y. isDouble x \<and> isDouble y \<and> 0 < x \<and> x \<le> y \<and> y \<le> 1 \<longrightarrow>
        (\<exists>v w. pow4 rt x = Fin v \<and> pow4 rt y = Fin w \<and> 0 \<le> v \<and> v \<le> w \<and> w \<le> 1))"

section \<open>The counter animation: \<open>AnimatedCounter\<close> (lines 203-231)\<close>

text \<open>
  The state of a started animation: the \<open>count\<close> shown, the variable \<open>startTime\<close>
  (\<open>None\<close> is \<open>undefined\<close>), and whether a frame is requested (\<open>requestAnimationFrame\<close> was
  called and its callback has not run).
\<close>

record counter =
  count :: number
  startTime :: "number option"
  rafPending :: bool

text \<open>The state when the effect has started the animation (lines 204, 211, 226).\<close>

definition counterStarted :: counter where
  "counterStarted = \<lparr>count = Fin 0, startTime = None, rafPending = True\<rparr>"

text \<open>
  Line 215: \<open>if (!startTime) startTime = timestamp\<close>. The test is true for \<open>undefined\<close>,
  for a zero and for \<open>NaN\<close>.
\<close>

definition startOf :: "counter \<Rightarrow> number \<Rightarrow> number" where
  "startOf c timestamp =
     (case startTime c of
        None \<Rightarrow> timestamp
      | Some t \<Rightarrow> if t = Fin 0 \<or> t = NaN then timestamp else t)"

text \<open>Line 217: \<open>Math.min((timestamp - startTime) / duration, 1)\<close>, given the difference.\<close>

definition progressOf :: "number \<Rightarrow> number \<Rightarrow> number" where
  "progressOf elapsed duration = mathMin (jsDiv elapsed duration) (Fin 1)"

text \<open>Line 218: \<open>1 - Math.pow(1 - progress, 4)\<close>.\<close>

definition easeOutQuart :: "runtime \<Rightarrow> number \<Rightarrow> number" where
  "easeOutQuart rt progress = jsSub (Fin 1) (mathPow4 rt (jsSub (Fin 1) progress))"

text \<open>
  One call of \<open>animate\<close> (lines 214-224). The quotient by a zero \<open>duration\<close> depends on the
  sign of the zero, which is not modelled: \<open>animate\<close> has no result there.
\<close>

definition animate :: "runtime \<Rightarrow> number \<Rightarrow> number \<Rightarrow> counter \<Rightarrow> number \<Rightarrow> counter option" where
  "animate rt target duration c timestamp =
     (if duration = Fin 0 then None
      else let start = startOf c timestamp;
               progress = progressOf (jsSub timestamp start) duration
           in Some \<lparr>count = mathFloor (jsMul (easeOutQuart rt progress) target),
                    startTime = Some start,
                    rafPending = jsLess progress (Fin 1)\<rparr>)"

text \<open>
  The browser delivers frames at the given timestamps; the list ends where the frames
  stop coming (the cleanup of the effect cancels the request when the component goes
  away). A frame runs \<open>animate\<close> only while one is requested. The result lists the state
  after each frame that ran.
\<close>

fun frames :: "runtime \<Rightarrow> number \<Rightarrow> number \<Rightarrow> counter \<Rightarrow> number list \<Rightarrow> counter list option" where
  "frames rt target duration c [] = Some []"
| "frames rt target duration c (t # ts) =
     (if \<not> rafPending c then Some []
      else case animate rt target duration c t of
             None \<Rightarrow> None
           | Some c' \<Rightarrow>
               (case frames rt target duration c' ts of
                  None \<Rightarrow> None
                | Some cs \<Rightarrow> Some (c' # cs)))"

section \<open>Properties of routing\<close>

lemma toSection_toPath: "s \<in> set navItems \<Longrightarrow> toSection (toPath s) = s"
  by (auto simp: navItems_def toPath_def toSection_def)

lemma toPath_toSection: "p \<in> set sitePaths \<Longrightarrow> toPath (toSection p) = p"
  by (auto simp: sitePaths_def toPath_def toSection_def)

lemma toPath_in_sitePaths: "s \<in> set navItems \<Longrightarrow> toPath s \<in> set sitePaths"
  by (auto simp: navItems_def sitePaths_def toPath_def)

lemma toSection_in_navItems: "toSection p \<in> set navItems"
  by (simp add: navItems_def toSection_def)

text \<open>
  C1. Sections and paths correspond one to one: going from any of the four sections to its
  path and back gives the section again, going from any of the four paths to its section
  and back gives the path again, and \<open>toPath\<close> is a bijection between the four sections
  and the four paths.
\<close>

theorem section_path_correspondence:
  "(\<forall>s \<in> set navItems. toSection (toPath s) = s) \<and>
   (\<forall>p \<in> set sitePaths. toPath (toSection p) = p) \<and>
   bij_betw toPath (set navItems) (set sitePaths)"
proof (intro conjI ballI)
  show "bij_betw toPath (set navItems) (set sitePaths)"
    by (rule bij_betw_byWitness [where f' = toSection])
       (auto simp: toSection_toPath toPath_toSection toPath_in_sitePaths toSection_in_navItems)
qed (simp_all add: toSection_toPath toPath_toSection)

theorem section_path_correspondence_witness:
  "''About'' \<in> set navItems \<and> toSection (toPath ''About'') = ''About'' \<and>
   ''/contact'' \<in> set sitePaths \<and> toPath (toSection ''/contact'') = ''/contact''"
proof -
  have s: "''About'' \<in> set navItems"
    by (simp add: navItems_def)
  have p: "''/contact'' \<in> set sitePaths"
    by (simp add: sitePaths_def)
  note 1 = section_path_correspondence [THEN conjunct1, THEN bspec, OF s]
  note 2 = section_path_correspondence [THEN conjunct2, THEN conjunct1, THEN bspec, OF p]
  show ?thesis
    by (intro conjI) (rule s p 1 2)+
qed

text \<open>
  While the active section is Home and the path is one that \<open>toSection\<close> sends to Home,
  the two synchronisation effects keep it so.
\<close>

lemma sync_keeps_Home:
  assumes a: "activeSection s = ''Home''" and p: "toSection (pathname s) = ''Home''"
    and i: "i = PathnameEffect \<or> i = SectionEffect"
  shows "\<exists>s'. step s i = Some s' \<and> activeSection s' = ''Home'' \<and>
    toSection (pathname s') = ''Home''"
proof -
  have 1: "step s PathnameEffect = Some s"
    using a p by simp
  have 2: "step s SectionEffect = Some (if pathname s \<noteq> ''/'' then s\<lparr>pathname := ''/''\<rparr> else s)"
    using a by (simp add: toPath_def)
  have 3: "toSection ''/'' = ''Home''"
    by (simp add: toSection_def)
  from i show ?thesis
  proof
    assume "i = PathnameEffect"
    with 1 a p show ?thesis by simp
  next
    assume "i = SectionEffect"
    with 2 3 a p show ?thesis by simp
  qed
qed

lemma sync_run_keeps_Home:
  "activeSection s = ''Home'' \<Longrightarrow> toSection (pathname s) = ''Home'' \<Longrightarrow>
   set es \<subseteq> {PathnameEffect, SectionEffect} \<Longrightarrow>
   \<exists>t. run s es = Some t \<and> activeSection t = ''Home''"
proof (induction es arbitrary: s)
  case Nil
  then show ?case by simp
next
  case (Cons i es)
  from Cons.prems have "i = PathnameEffect \<or> i = SectionEffect" by auto
  with Cons.prems obtain s' where s': "step s i = Some s'" "activeSection s' = ''Home''"
    "toSection (pathname s') = ''Home''"
    using sync_keeps_Home by blast
  from Cons.prems have "set es \<subseteq> {PathnameEffect, SectionEffect}" by simp
  with Cons.IH s' obtain t where "run s' es = Some t" "activeSection t = ''Home''"
    by blast
  with s' show ?case by simp
qed

text \<open>
  C9. \<open>toSection\<close> returns a section for every string, and it returns Home for every
  pathname other than \<open>/highlights\<close>, \<open>/about\<close> and \<open>/contact\<close>, which covers the alias
  \<open>/home\<close> and every unknown path. A page opened at such a path therefore shows Home: the
  synchronisation effects, run in any order and any number of times from the state at
  mount, all succeed and leave Home the active section.
\<close>

theorem toSection_defaults_to_Home:
  "toSection q \<in> set navItems \<and>
   toSection ''/home'' = ''Home'' \<and>
   (p \<notin> {''/highlights'', ''/about'', ''/contact''} \<longrightarrow>
      toSection p = ''Home'' \<and>
      (set es \<subseteq> {PathnameEffect, SectionEffect} \<longrightarrow>
         (\<exists>t. run (initial_state p) es = Some t \<and> activeSection t = ''Home'')))"
proof (intro conjI impI)
  show "toSection q \<in> set navItems" by (rule toSection_in_navItems)
  show "toSection ''/home'' = ''Home''" by (simp add: toSection_def)
next
  assume p: "p \<notin> {''/highlights'', ''/about'', ''/contact''}"
  then show h: "toSection p = ''Home''" by (simp add: toSection_def)
  assume "set es \<subseteq> {PathnameEffect, SectionEffect}"
  with h show "\<exists>t. run (initial_state p) es = Some t \<and> activeSection t = ''Home''"
    by (intro sync_run_keeps_Home) (simp_all add: initial_state_def)
qed

theorem toSection_defaults_to_Home_witness:
  "''/choir/2024'' \<notin> {''/highlights'', ''/about'', ''/contact''} \<and>
   toSection ''/choir/2024'' = ''Home'' \<and>
   set [PathnameEffect, SectionEffect, PathnameEffect] \<subseteq> {PathnameEffect, SectionEffect} \<and>
   (\<exists>t. run (initial_state ''/choir/2024'') [PathnameEffect, SectionEffect, PathnameEffect] = Some t
      \<and> activeSection t = ''Home'')"
proof -
  have p: "''/choir/2024'' \<notin> {''/highlights'', ''/about'', ''/contact''}"
    by simp
  have es: "set [PathnameEffect, SectionEffect, PathnameEffect] \<subseteq> {PathnameEffect, SectionEffect}"
    by simp
  note t = toSection_defaults_to_Home [of "''/''" "''/choir/2024''"
      "[PathnameEffect, SectionEffect, PathnameEffect]",
      THEN conjunct2, THEN conjunct2, THEN mp, OF p]
  note h = t [THEN conjunct1]
  note r = t [THEN conjunct2, THEN mp, OF es]
  show ?thesis
    by (intro conjI) (rule p h es r)+
qed

section \<open>Properties of the state and of rendering\<close>

lemma length_highlightsEvents: "length highlightsEvents = 4"
  by (simp add: highlightsEvents_def)

lemma length_heroImages: "length heroImages = 4"
  by (simp add: heroImages_def length_highlightsEvents)

lemma event_ids: "map id_ev highlightsEvents = [1, 2, 3, 4]"
  by (simp add: highlightsEvents_def)

lemma step_hero_index:
  "currentHeroIndex s < length heroImages \<Longrightarrow> step s i = Some s' \<Longrightarrow>
   currentHeroIndex s' < length heroImages"
  by (cases i) (auto simp: Let_def split: if_splits)

lemma run_hero_index:
  "currentHeroIndex s < length heroImages \<Longrightarrow> run s ins = Some t \<Longrightarrow>
   currentHeroIndex t < length heroImages"
proof (induction ins arbitrary: s)
  case Nil
  then show ?case by simp
next
  case (Cons i ins)
  then show ?case by (auto split: option.splits dest: step_hero_index)
qed

text \<open>
  C3. The hero index starts at 0; a tick always happens and replaces the index by its
  successor modulo the number of hero images, so that the last index is followed by 0;
  a dot sets the index of that dot, which is the index of an image; and after any
  sequence of transitions from the state at mount the index is a valid index into
  \<open>heroImages\<close>.
\<close>

theorem hero_index_valid:
  "currentHeroIndex (initial_state p) = 0 \<and>
   step s HeroTick =
     Some (s\<lparr>currentHeroIndex := (currentHeroIndex s + 1) mod length heroImages\<rparr>) \<and>
   (currentHeroIndex s = length heroImages - 1 \<longrightarrow>
      (\<exists>s'. step s HeroTick = Some s' \<and> currentHeroIndex s' = 0)) \<and>
   (\<forall>s'. step s (DotClick i) = Some s' \<longrightarrow> currentHeroIndex s' = i \<and> i < length heroImages) \<and>
   (\<forall>t. run (initial_state p) ins = Some t \<longrightarrow> currentHeroIndex t < length heroImages)"
proof (intro conjI allI impI)
  show "currentHeroIndex (initial_state p) = 0"
    by (simp add: initial_state_def)
  show "step s HeroTick =
      Some (s\<lparr>currentHeroIndex := (currentHeroIndex s + 1) mod length heroImages\<rparr>)"
    by (simp add: length_heroImages)
next
  assume "currentHeroIndex s = length heroImages - 1"
  then show "\<exists>s'. step s HeroTick = Some s' \<and> currentHeroIndex s' = 0"
    by (simp add: length_heroImages)
next
  fix s' assume d: "step s (DotClick i) = Some s'"
  then show "currentHeroIndex s' = i" by (auto split: if_splits)
  from d show "i < length heroImages" by (auto split: if_splits)
next
  fix t assume "run (initial_state p) ins = Some t"
  moreover have "currentHeroIndex (initial_state p) < length heroImages"
    by (simp add: initial_state_def length_heroImages)
  ultimately show "currentHeroIndex t < length heroImages"
    by (rule run_hero_index [rotated])
qed

theorem hero_index_valid_witness:
  "currentHeroIndex ((initial_state ''/'')\<lparr>currentHeroIndex := 3\<rparr>) = length heroImages - 1 \<and>
   (\<exists>s'. step ((initial_state ''/'')\<lparr>currentHeroIndex := 3\<rparr>) HeroTick = Some s' \<and>
      currentHeroIndex s' = 0) \<and>
   step (initial_state ''/'') (DotClick 2) = Some ((initial_state ''/'')\<lparr>currentHeroIndex := 2\<rparr>) \<and>
   currentHeroIndex ((initial_state ''/'')\<lparr>currentHeroIndex := 2\<rparr>) = 2 \<and>
   2 < length heroImages \<and>
   run (initial_state ''/'') [HeroTick, HeroTick, DotClick 3, HeroTick, HeroTick] =
     Some ((initial_state ''/'')\<lparr>currentHeroIndex := 1\<rparr>) \<and>
   currentHeroIndex ((initial_state ''/'')\<lparr>currentHeroIndex := 1\<rparr>) < length heroImages"
proof -
  let ?s = "initial_state ''/''"
  have last: "currentHeroIndex (?s\<lparr>currentHeroIndex := 3\<rparr>) = length heroImages - 1"
    by (simp add: length_heroImages)
  have dot: "step ?s (DotClick 2) = Some (?s\<lparr>currentHeroIndex := 2\<rparr>)"
    by (simp add: length_heroImages)
  have run: "run ?s [HeroTick, HeroTick, DotClick 3, HeroTick, HeroTick] =
      Some (?s\<lparr>currentHeroIndex := 1\<rparr>)"
    by (simp add: length_heroImages initial_state_def)
  note wrap = hero_index_valid [of "''/''" "?s\<lparr>currentHeroIndex := 3\<rparr>" 2 "[]",
      THEN conjunct2, THEN conjunct2, THEN conjunct1, THEN mp, OF last]
  note d = hero_index_valid [of "''/''" ?s 2 "[]",
      THEN conjunct2, THEN conjunct2, THEN conjunct2, THEN conjunct1, THEN spec, THEN mp, OF dot]
  note r = hero_index_valid [of "''/''" ?s 2 "[HeroTick, HeroTick, DotClick 3, HeroTick, HeroTick]",
      THEN conjunct2, THEN conjunct2, THEN conjunct2, THEN conjunct2, THEN spec, THEN mp, OF run]
  show ?thesis
    by (intro conjI) (rule last wrap dot d [THEN conjunct1] d [THEN conjunct2] run r)+
qed

lemma find_distinct_key:
  "distinct (map f xs) \<Longrightarrow> e \<in> set xs \<Longrightarrow> find (\<lambda>x. f x = f e) xs = Some e"
proof (induction xs)
  case Nil
  then show ?case by simp
next
  case (Cons x xs)
  then show ?case by (cases "x = e") (auto simp: image_iff)
qed

lemma find_by_id:
  assumes "e \<in> set highlightsEvents"
  shows "find (\<lambda>x. id_ev x = id_ev e) highlightsEvents = Some e"
proof -
  have "distinct (map id_ev highlightsEvents)"
    by (simp add: event_ids)
  then show ?thesis using assms by (rule find_distinct_key)
qed

lemma id_ev_nonzero:
  assumes "e \<in> set highlightsEvents"
  shows "id_ev e \<noteq> 0"
proof -
  from assms have "id_ev e \<in> set (map id_ev highlightsEvents)" by simp
  then show ?thesis unfolding event_ids by auto
qed

lemma selectedEvent_Some:
  "e \<in> set highlightsEvents \<Longrightarrow> selectedEvent (s\<lparr>selectedEventId := Some (id_ev e)\<rparr>) = Some e"
  by (simp add: selectedEvent_def find_by_id id_ev_nonzero)

lemma sectionView_selectedEventId [simp]:
  "sectionView (s\<lparr>selectedEventId := x\<rparr>) = sectionView s"
  by (simp add: sectionView_def heroSrc_def)

text \<open>
  C7. For an event of the fixed list, setting \<open>selectedEventId\<close> to its identifier (which
  is what the card's button does) makes \<open>renderSection\<close> return the detail view of that
  event; setting it to \<open>null\<close> (which is what the back button does) makes \<open>renderSection\<close>
  return the view of the active section, which for Highlights is the list of cards.
\<close>

theorem selected_event_detail_view:
  "(e \<in> set highlightsEvents \<longrightarrow>
      renderSection (s\<lparr>selectedEventId := Some (id_ev e)\<rparr>) = renderEventDetail e \<and>
      step s (ExploreClick (id_ev e)) = Some (s\<lparr>selectedEventId := Some (id_ev e)\<rparr>)) \<and>
   renderSection (s\<lparr>selectedEventId := None\<rparr>) = sectionView s \<and>
   step s BackClick = Some (s\<lparr>selectedEventId := None\<rparr>) \<and>
   (activeSection s = ''Highlights'' \<longrightarrow>
      renderSection (s\<lparr>selectedEventId := None\<rparr>) = HighlightsView highlightsEvents)"
proof (intro conjI impI)
  assume e: "e \<in> set highlightsEvents"
  then show "renderSection (s\<lparr>selectedEventId := Some (id_ev e)\<rparr>) = renderEventDetail e"
    by (simp add: renderSection_def selectedEvent_Some)
  from e show "step s (ExploreClick (id_ev e)) = Some (s\<lparr>selectedEventId := Some (id_ev e)\<rparr>)"
    by simp
next
  show n: "renderSection (s\<lparr>selectedEventId := None\<rparr>) = sectionView s"
    by (simp add: renderSection_def selectedEvent_def)
  show "step s BackClick = Some (s\<lparr>selectedEventId := None\<rparr>)"
    by simp
  assume "activeSection s = ''Highlights''"
  then show "renderSection (s\<lparr>selectedEventId := None\<rparr>) = HighlightsView highlightsEvents"
    unfolding n by (simp add: sectionView_def)
qed

theorem selected_event_detail_view_witness:
  "highlightsEvents ! 2 \<in> set highlightsEvents \<and>
   id_ev (highlightsEvents ! 2) = 3 \<and>
   renderSection ((initial_state ''/highlights'')
      \<lparr>activeSection := ''Highlights'', selectedEventId := Some 3\<rparr>) =
     renderEventDetail (highlightsEvents ! 2) \<and>
   activeSection ((initial_state ''/highlights'')\<lparr>activeSection := ''Highlights''\<rparr>) =
     ''Highlights'' \<and>
   renderSection ((initial_state ''/highlights'')
      \<lparr>activeSection := ''Highlights'', selectedEventId := None\<rparr>) =
     HighlightsView highlightsEvents"
proof -
  let ?s = "(initial_state ''/highlights'')\<lparr>activeSection := ''Highlights''\<rparr>"
  have e: "highlightsEvents ! 2 \<in> set highlightsEvents"
    by (rule nth_mem) (simp add: length_highlightsEvents)
  have "id_ev (highlightsEvents ! 2) = map id_ev highlightsEvents ! 2"
    by (simp add: length_highlightsEvents)
  then have i: "id_ev (highlightsEvents ! 2) = 3"
    by (simp add: event_ids)
  have a: "activeSection ?s = ''Highlights''"
    by simp
  note d = selected_event_detail_view [of "highlightsEvents ! 2" ?s,
      THEN conjunct1, THEN mp, OF e, THEN conjunct1, unfolded i]
  note l = selected_event_detail_view [of "highlightsEvents ! 2" ?s,
      THEN conjunct2, THEN conjunct2, THEN conjunct2, THEN mp, OF a]
  show ?thesis
    by (intro conjI) (rule e i d a l)+
qed

lemma About_in_navItems: "''About'' \<in> set navItems"
  by (simp add: navItems_def)

lemma step_activeSection:
  "activeSection s \<in> set navItems \<Longrightarrow> step s i = Some s' \<Longrightarrow> activeSection s' \<in> set navItems"
  by (cases i) (auto simp: Let_def toSection_in_navItems About_in_navItems split: if_splits)

lemma step_selectedEventId:
  "step s i = Some s' \<Longrightarrow> selectedEventId s' = Some k \<Longrightarrow>
   selectedEventId s = Some k \<or> k \<in> set (map id_ev highlightsEvents)"
  by (cases i) (auto simp: Let_def split: if_splits)

lemma step_state_inv: "state_inv s \<Longrightarrow> step s i = Some s' \<Longrightarrow> state_inv s'"
  unfolding state_inv_def
  using step_activeSection [of s i s'] step_selectedEventId [of s i s']
  by (auto split: option.splits)

lemma run_state_inv: "state_inv s \<Longrightarrow> run s ins = Some t \<Longrightarrow> state_inv t"
proof (induction ins arbitrary: s)
  case Nil
  then show ?case by simp
next
  case (Cons i ins)
  then show ?case by (auto split: option.splits dest: step_state_inv)
qed

lemma initial_state_inv: "state_inv (initial_state p)"
  by (simp add: state_inv_def initial_state_def navItems_def)

text \<open>
  C8. The state at mount satisfies the two invariants (the active section is one of Home,
  Highlights, About, Contact; the selected identifier, when there is one, is the
  identifier of an entry of \<open>highlightsEvents\<close>), every transition preserves them, and so
  they hold after every sequence of transitions from the state at mount.
\<close>

theorem state_invariants_preserved:
  "state_inv (initial_state p) \<and>
   (\<forall>s'. state_inv s \<and> step s i = Some s' \<longrightarrow> state_inv s') \<and>
   (\<forall>t. run (initial_state p) ins = Some t \<longrightarrow> state_inv t)"
  using initial_state_inv step_state_inv run_state_inv by blast

theorem state_invariants_preserved_witness:
  "state_inv (initial_state ''/about'') \<and>
   step (initial_state ''/about'') PathnameEffect =
     Some ((initial_state ''/about'')\<lparr>activeSection := ''About''\<rparr>) \<and>
   state_inv ((initial_state ''/about'')\<lparr>activeSection := ''About''\<rparr>) \<and>
   run (initial_state ''/about'') [PathnameEffect, NavClick ''Highlights'', ExploreClick 4] =
     Some ((initial_state ''/about'')\<lparr>activeSection := ''Highlights'', selectedEventId := Some 4\<rparr>) \<and>
   state_inv ((initial_state ''/about'')\<lparr>activeSection := ''Highlights'', selectedEventId := Some 4\<rparr>)"
proof -
  let ?s = "initial_state ''/about''"
  note 0 = state_invariants_preserved [of "''/about''" ?s PathnameEffect "[]", THEN conjunct1]
  have st: "step ?s PathnameEffect = Some (?s\<lparr>activeSection := ''About''\<rparr>)"
    by (simp add: initial_state_def toSection_def)
  have rn: "run ?s [PathnameEffect, NavClick ''Highlights'', ExploreClick 4] =
      Some (?s\<lparr>activeSection := ''Highlights'', selectedEventId := Some 4\<rparr>)"
    by (simp add: initial_state_def toSection_def navItems_def event_ids)
  note 1 = state_invariants_preserved [of "''/about''" ?s PathnameEffect "[]",
      THEN conjunct2, THEN conjunct1, THEN spec, THEN mp, OF conjI, OF 0 st]
  note 2 = state_invariants_preserved [of "''/about''" ?s PathnameEffect
      "[PathnameEffect, NavClick ''Highlights'', ExploreClick 4]",
      THEN conjunct2, THEN conjunct2, THEN spec, THEN mp, OF rn]
  show ?thesis
    by (intro conjI) (rule 0 st 1 rn 2)+
qed

section \<open>Properties of the contact form\<close>

lemma configMissing_remote:
  assumes "hostname w \<noteq> ''localhost''" and "hostname w \<noteq> ''127.0.0.1''"
  shows "configMissing w =
    [Do (ConsoleError ''Missing EmailJS configuration''),
     Do (Alert ''Email service is not configured. Please try again later.'')]"
  using assms by (simp add: configMissing_def)

lemma absent_not_configured:
  "serviceId env = None \<or> templateId env = None \<or> publicKey env = None \<Longrightarrow> \<not> configured env"
  by (auto simp: configured_def truthy_def)

text \<open>
  C2. When the form is submitted (the form is mounted, so \<open>formRef.current\<close> is its
  element), the provider configuration is not complete (one of the service identifier,
  the template identifier and the public key is absent or empty) and the hostname is
  neither \<open>localhost\<close> nor \<open>127.0.0.1\<close>, the handler logs the missing configuration, shows
  the alert that the email service is not configured, and does nothing else: it makes no
  call of \<open>emailjs.sendForm\<close> or \<open>emailjs.send\<close>.
\<close>

theorem config_missing_remote_host:
  assumes "formMounted w" and "\<not> configured env"
    and "hostname w \<noteq> ''localhost''" and "hostname w \<noteq> ''127.0.0.1''"
  shows "handleSubmit env w s =
      [Do PreventDefault,
       Do (ConsoleError ''Missing EmailJS configuration''),
       Do (Alert ''Email service is not configured. Please try again later.'')] \<and>
    Alert ''Email service is not configured. Please try again later.''
      \<in> set (allActions (handleSubmit env w s)) \<and>
    networkCalls (handleSubmit env w s) = []"
proof -
  from assms(1,2) have "handleSubmit env w s = Do PreventDefault # configMissing w"
    by (auto simp: handleSubmit_def configured_def)
  with assms(3,4) have t: "handleSubmit env w s =
      [Do PreventDefault,
       Do (ConsoleError ''Missing EmailJS configuration''),
       Do (Alert ''Email service is not configured. Please try again later.'')]"
    by (simp add: configMissing_remote)
  show ?thesis
    unfolding t by (simp add: allActions_def networkCalls_def)
qed

theorem config_missing_remote_host_witness:
  "formMounted \<lparr>formMounted = True, formMountedAfterSend = True, formMountedAtTimeout = True,
      windowDefined = True, hostname = ''example.org'', sendFormOutcome = Fulfilled,
      sendOutcome = Fulfilled\<rparr> \<and>
   \<not> configured \<lparr>serviceId = Some ''service_1'', templateId = Some ''template_1'',
      publicKey = None, replyTemplateId = None, replyEmail = None\<rparr> \<and>
   handleSubmit
     \<lparr>serviceId = Some ''service_1'', templateId = Some ''template_1'',
      publicKey = None, replyTemplateId = None, replyEmail = None\<rparr>
     \<lparr>formMounted = True, formMountedAfterSend = True, formMountedAtTimeout = True,
      windowDefined = True, hostname = ''example.org'', sendFormOutcome = Fulfilled,
      sendOutcome = Fulfilled\<rparr>
     (initial_state ''/contact'') =
     [Do PreventDefault,
      Do (ConsoleError ''Missing EmailJS configuration''),
      Do (Alert ''Email service is not configured. Please try again later.'')] \<and>
   networkCalls (handleSubmit
     \<lparr>serviceId = Some ''service_1'', templateId = Some ''template_1'',
      publicKey = None, replyTemplateId = None, replyEmail = None\<rparr>
     \<lparr>formMounted = True, formMountedAfterSend = True, formMountedAtTimeout = True,
      windowDefined = True, hostname = ''example.org'', sendFormOutcome = Fulfilled,
      sendOutcome = Fulfilled\<rparr>
     (initial_state ''/contact'')) = []"
proof -
  let ?env = "\<lparr>serviceId = Some ''service_1'', templateId = Some ''template_1'',
      publicKey = None, replyTemplateId = None, replyEmail = None\<rparr>"
  let ?w = "\<lparr>formMounted = True, formMountedAfterSend = True, formMountedAtTimeout = True,
      windowDefined = True, hostname = ''example.org'', sendFormOutcome = Fulfilled,
      sendOutcome = Fulfilled\<rparr>"
  have m: "formMounted ?w" by simp
  have c: "\<not> configured ?env" by (simp add: configured_def truthy_def)
  have h1: "hostname ?w \<noteq> ''localhost''" by simp
  have h2: "hostname ?w \<noteq> ''127.0.0.1''" by simp
  note t = config_missing_remote_host [OF m c h1 h2, of "initial_state ''/contact''"]
  show ?thesis
    by (intro conjI) (rule m c t [THEN conjunct1] t [THEN conjunct2, THEN conjunct2])+
qed

lemma tryBlock_Rejected:
  "sendFormOutcome w = Rejected \<Longrightarrow>
   tryBlock env w s =
     Do (SendForm (valueOf (serviceId env)) (valueOf (templateId env)) (valueOf (publicKey env))) #
     catchBlock"
  by (simp add: tryBlock_def)

lemma handleSubmit_configured:
  "formMounted w \<Longrightarrow> configured env \<Longrightarrow> handleSubmit env w s = Do PreventDefault # tryBlock env w s"
  by (simp add: handleSubmit_def configured_def)

text \<open>
  C6. When the form is submitted with the provider configuration present and the call of
  \<open>emailjs.sendForm\<close> is rejected, the handler calls \<open>sendForm\<close> once, logs the error and
  shows the alert that the message failed to be sent. This is the whole trace: there is
  exactly one delivery attempt, the form is not reset, \<open>emailjs.send\<close> is not called, and
  nothing stores the message (no action of the handler does).
\<close>

theorem delivery_failure_reported:
  assumes "formMounted w" and "configured env" and "sendFormOutcome w = Rejected"
  shows "handleSubmit env w s =
      [Do PreventDefault,
       Do (SendForm (valueOf (serviceId env)) (valueOf (templateId env)) (valueOf (publicKey env))),
       Do (ConsoleError ''EmailJS send error:''),
       Do (Alert ''Failed to send message. Please try again later.'')] \<and>
    length (filter isSendForm (allActions (handleSubmit env w s))) = 1 \<and>
    FormReset \<notin> set (allActions (handleSubmit env w s)) \<and>
    filter isSend (allActions (handleSubmit env w s)) = [] \<and>
    visibleOutcome (handleSubmit env w s) =
      [Alert ''Failed to send message. Please try again later.'']"
proof -
  from assms have t: "handleSubmit env w s =
      [Do PreventDefault,
       Do (SendForm (valueOf (serviceId env)) (valueOf (templateId env)) (valueOf (publicKey env))),
       Do (ConsoleError ''EmailJS send error:''),
       Do (Alert ''Failed to send message. Please try again later.'')]"
    by (simp add: handleSubmit_configured tryBlock_Rejected catchBlock_def)
  show ?thesis
    unfolding t by (simp add: allActions_def visibleOutcome_def)
qed

theorem delivery_failure_reported_witness:
  "formMounted \<lparr>formMounted = True, formMountedAfterSend = True, formMountedAtTimeout = True,
      windowDefined = True, hostname = ''example.org'', sendFormOutcome = Rejected,
      sendOutcome = Fulfilled\<rparr> \<and>
   configured \<lparr>serviceId = Some ''service_1'', templateId = Some ''template_1'',
      publicKey = Some ''key_1'', replyTemplateId = Some ''template_2'', replyEmail = None\<rparr> \<and>
   handleSubmit
     \<lparr>serviceId = Some ''service_1'', templateId = Some ''template_1'',
      publicKey = Some ''key_1'', replyTemplateId = Some ''template_2'', replyEmail = None\<rparr>
     \<lparr>formMounted = True, formMountedAfterSend = True, formMountedAtTimeout = True,
      windowDefined = True, hostname = ''example.org'', sendFormOutcome = Rejected,
      sendOutcome = Fulfilled\<rparr>
     ((initial_state ''/contact'')\<lparr>userEmail := ''ana@example.org''\<rparr>) =
     [Do PreventDefault,
      Do (SendForm ''service_1'' ''template_1'' ''key_1''),
      Do (ConsoleError ''EmailJS send error:''),
      Do (Alert ''Failed to send message. Please try again later.'')]"
proof -
  let ?env = "\<lparr>serviceId = Some ''service_1'', templateId = Some ''template_1'',
      publicKey = Some ''key_1'', replyTemplateId = Some ''template_2'', replyEmail = None\<rparr>"
  let ?w = "\<lparr>formMounted = True, formMountedAfterSend = True, formMountedAtTimeout = True,
      windowDefined = True, hostname = ''example.org'', sendFormOutcome = Rejected,
      sendOutcome = Fulfilled\<rparr>"
  have m: "formMounted ?w" by simp
  have c: "configured ?env" by (simp add: configured_def truthy_def)
  have r: "sendFormOutcome ?w = Rejected" by simp
  have v: "valueOf (serviceId ?env) = ''service_1''" "valueOf (templateId ?env) = ''template_1''"
    "valueOf (publicKey ?env) = ''key_1''"
    by (simp_all add: valueOf_def)
  note t = delivery_failure_reported [OF m c r,
      of "(initial_state ''/contact'')\<lparr>userEmail := ''ana@example.org''\<rparr>",
      THEN conjunct1, unfolded v]
  show ?thesis
    by (intro conjI) (rule m c t)+
qed

text \<open>
  The acknowledgement is sent exactly when the form is mounted at submission, the
  configuration is present, \<open>sendForm\<close> is fulfilled, the form is still mounted when it is
  fulfilled, a reply template is configured and the email field is not empty.
\<close>

lemma autoReply_isSend:
  "filter isSend (allActions (autoReply env w s)) \<noteq> [] \<longleftrightarrow>
   truthy (replyTemplateId env) \<and> userEmail s \<noteq> ''''"
  by (cases "sendOutcome w") (simp_all add: autoReply_def allActions_def)

lemma tryBlock_isSend:
  "filter isSend (allActions (tryBlock env w s)) \<noteq> [] \<longleftrightarrow>
   sendFormOutcome w = Fulfilled \<and> formMountedAfterSend w \<and>
   truthy (replyTemplateId env) \<and> userEmail s \<noteq> ''''"
proof (cases "sendFormOutcome w")
  case Fulfilled
  with autoReply_isSend [of env w s] show ?thesis
    by (simp add: tryBlock_def catchBlock_def allActions_def)
next
  case Rejected
  then show ?thesis by (simp add: tryBlock_def catchBlock_def allActions_def)
next
  case Pending
  then show ?thesis by (simp add: tryBlock_def allActions_def)
qed

lemma auto_reply_attempted_iff:
  "filter isSend (allActions (handleSubmit env w s)) \<noteq> [] \<longleftrightarrow>
   formMounted w \<and> configured env \<and> sendFormOutcome w = Fulfilled \<and>
   formMountedAfterSend w \<and> truthy (replyTemplateId env) \<and> userEmail s \<noteq> ''''"
proof (cases "formMounted w \<and> configured env")
  case True
  then have "handleSubmit env w s = Do PreventDefault # tryBlock env w s"
    by (simp add: handleSubmit_configured)
  then have "filter isSend (allActions (handleSubmit env w s)) =
      filter isSend (allActions (tryBlock env w s))"
    by (simp add: allActions_def)
  with True tryBlock_isSend [of env w s] show ?thesis by simp
next
  case False
  then have "handleSubmit env w s = [Do PreventDefault] \<or>
      handleSubmit env w s = Do PreventDefault # configMissing w"
    by (auto simp: handleSubmit_def configured_def)
  moreover have "filter isSend (allActions (Do PreventDefault # configMissing w)) = []"
    by (simp add: configMissing_def allActions_def)
  moreover have "filter isSend (allActions [Do PreventDefault]) = []"
    by (simp add: allActions_def)
  ultimately have "filter isSend (allActions (handleSubmit env w s)) = []"
    by auto
  with False show ?thesis by auto
qed

text \<open>How the acknowledgement ends does not change what the user sees.\<close>

lemma auto_reply_outcome_invisible:
  "visibleOutcome (handleSubmit env (w\<lparr>sendOutcome := x\<rparr>) s) =
   visibleOutcome (handleSubmit env w s)"
proof -
  have a: "visibleOutcome (autoReply env (w\<lparr>sendOutcome := x\<rparr>) s) = []" for x
    by (cases x) (simp_all add: autoReply_def visibleOutcome_def allActions_def)
  have "visibleOutcome (autoReply env w s) = []"
    using a [of "sendOutcome w"] by simp
  with a [of x] have b: "visibleOutcome (tryBlock env (w\<lparr>sendOutcome := x\<rparr>) s) =
      visibleOutcome (tryBlock env w s)"
    by (cases "sendFormOutcome w")
       (simp_all add: tryBlock_def visibleOutcome_def allActions_def)
  have c: "configMissing (w\<lparr>sendOutcome := x\<rparr>) = configMissing w"
    by (simp add: configMissing_def)
  from b c show ?thesis
    by (simp add: handleSubmit_def visibleOutcome_def allActions_def)
qed

text \<open>
  C10. The acknowledgement is meant to be sent whenever \<open>sendForm\<close> succeeded, a reply
  template is configured and the email field is not empty. The handler misses it when the
  form was unmounted while \<open>sendForm\<close> was pending: with all three conditions true, the
  success alert is followed by the \<open>TypeError\<close> of \<open>formRef.current.reset()\<close>, the \<open>catch\<close>
  block reports a failure, and \<open>emailjs.send\<close> is never called.
\<close>

theorem acknowledgement_skipped_after_unmount:
  "handleSubmit
     \<lparr>serviceId = Some ''service_1'', templateId = Some ''template_1'',
      publicKey = Some ''key_1'', replyTemplateId = Some ''template_2'', replyEmail = None\<rparr>
     \<lparr>formMounted = True, formMountedAfterSend = False, formMountedAtTimeout = False,
      windowDefined = True, hostname = ''example.org'', sendFormOutcome = Fulfilled,
      sendOutcome = Fulfilled\<rparr>
     ((initial_state ''/contact'')\<lparr>activeSection := ''Contact'', userEmail := ''ana@example.org''\<rparr>) =
     [Do PreventDefault,
      Do (SendForm ''service_1'' ''template_1'' ''key_1''),
      Do (Alert ''Message sent successfully!''),
      Do (ConsoleError ''EmailJS send error:''),
      Do (Alert ''Failed to send message. Please try again later.'')] \<and>
   truthy (replyTemplateId
     \<lparr>serviceId = Some ''service_1'', templateId = Some ''template_1'',
      publicKey = Some ''key_1'', replyTemplateId = Some ''template_2'', replyEmail = None\<rparr>) \<and>
   userEmail ((initial_state ''/contact'')
     \<lparr>activeSection := ''Contact'', userEmail := ''ana@example.org''\<rparr>) \<noteq> ''''"
  by (simp add: handleSubmit_def tryBlock_def catchBlock_def truthy_def valueOf_def)

theorem acknowledgement_skipped_after_unmount_witness:
  "filter isSend (allActions (handleSubmit
     \<lparr>serviceId = Some ''service_1'', templateId = Some ''template_1'',
      publicKey = Some ''key_1'', replyTemplateId = Some ''template_2'', replyEmail = None\<rparr>
     \<lparr>formMounted = True, formMountedAfterSend = False, formMountedAtTimeout = False,
      windowDefined = True, hostname = ''example.org'', sendFormOutcome = Fulfilled,
      sendOutcome = Fulfilled\<rparr>
     ((initial_state ''/contact'')\<lparr>activeSection := ''Contact'', userEmail := ''ana@example.org''\<rparr>))) = [] \<and>
   visibleOutcome (handleSubmit
     \<lparr>serviceId = Some ''service_1'', templateId = Some ''template_1'',
      publicKey = Some ''key_1'', replyTemplateId = Some ''template_2'', replyEmail = None\<rparr>
     \<lparr>formMounted = True, formMountedAfterSend = False, formMountedAtTimeout = False,
      windowDefined = True, hostname = ''example.org'', sendFormOutcome = Fulfilled,
      sendOutcome = Fulfilled\<rparr>
     ((initial_state ''/contact'')\<lparr>activeSection := ''Contact'', userEmail := ''ana@example.org''\<rparr>)) =
     [Alert ''Message sent successfully!'',
      Alert ''Failed to send message. Please try again later.'']"
  unfolding acknowledgement_skipped_after_unmount [THEN conjunct1]
  by (simp add: allActions_def visibleOutcome_def)

section \<open>Properties of rounding\<close>

lemma rne_of_int [simp]: "rne (of_int n) = n"
  by (simp add: rne_def)

lemma rne_bounds: "\<lfloor>y\<rfloor> \<le> rne y" "rne y \<le> \<lfloor>y\<rfloor> + 1"
  by (simp_all add: rne_def Let_def)

lemma rne_mono:
  assumes "x \<le> y"
  shows "rne x \<le> rne y"
proof (cases "\<lfloor>x\<rfloor> = \<lfloor>y\<rfloor>")
  case True
  with assms have "x - of_int \<lfloor>x\<rfloor> \<le> y - of_int \<lfloor>y\<rfloor>" by simp
  with True show ?thesis by (simp add: rne_def Let_def)
next
  case False
  moreover from assms have "\<lfloor>x\<rfloor> \<le> \<lfloor>y\<rfloor>" by (rule floor_mono)
  ultimately have "\<lfloor>x\<rfloor> < \<lfloor>y\<rfloor>" by simp
  with rne_bounds(2) [of x] rne_bounds(1) [of y] show ?thesis by linarith
qed

lemma rne_minus: "rne (- y) = - rne y"
proof (cases "y = of_int \<lfloor>y\<rfloor>")
  case True
  then have "- y = of_int (- \<lfloor>y\<rfloor>)" by simp
  then have "rne (- y) = - \<lfloor>y\<rfloor>" by (simp only: rne_of_int)
  moreover from True have "rne y = \<lfloor>y\<rfloor>" by (metis rne_of_int)
  ultimately show ?thesis by simp
next
  case False
  then have "\<lceil>y\<rceil> = \<lfloor>y\<rfloor> + 1" by (simp add: ceiling_altdef)
  moreover have "\<lfloor>- y\<rfloor> = - \<lceil>y\<rceil>" by (simp add: ceiling_def)
  ultimately have f: "\<lfloor>- y\<rfloor> = - \<lfloor>y\<rfloor> - 1" by simp
  define n where "n = \<lfloor>y\<rfloor>"
  define r where "r = y - of_int n"
  have y: "y = of_int n + r" by (simp add: r_def)
  have f': "\<lfloor>- y\<rfloor> = - n - 1" using f by (simp add: n_def)
  have r': "- y - of_int (- n - 1) = 1 - r" by (simp add: r_def)
  have a: "rne y = (if r < 1 / 2 then n else if 1 / 2 < r then n + 1 else if even n then n else n + 1)"
    unfolding rne_def Let_def n_def [symmetric] r_def [symmetric] ..
  have b: "rne (- y) = (if 1 - r < 1 / 2 then - n - 1 else if 1 / 2 < 1 - r then - n - 1 + 1
      else if even (- n - 1) then - n - 1 else - n - 1 + 1)"
    unfolding rne_def Let_def f' r' ..
  consider "r < 1 / 2" | "1 / 2 < r" | "r = 1 / 2" by linarith
  then show ?thesis
  proof cases
    case 1
    then show ?thesis unfolding a b by simp
  next
    case 2
    then show ?thesis unfolding a b by simp
  next
    case 3
    then show ?thesis unfolding a b by simp
  qed
qed

lemma two_powi_nat: "0 \<le> k \<Longrightarrow> (2::real) powi k = of_int (2 ^ nat k)"
  by (simp add: power_int_def)

lemma two_powi_neg: "0 \<le> k \<Longrightarrow> (2::real) powi (- k) = 1 / of_int (2 ^ nat k)"
  by (simp add: power_int_minus_divide two_powi_nat)

lemma ilog2_ge_1:
  fixes x :: real
  assumes "1 \<le> x"
  shows "2 powi (bitlen \<lfloor>x\<rfloor> - 1) \<le> x \<and> x < 2 powi (bitlen \<lfloor>x\<rfloor> - 1 + 1)"
proof -
  let ?n = "\<lfloor>x\<rfloor>"
  from assms have n: "0 < ?n" by simp
  from bitlen_bounds [OF n] have b: "2 ^ nat (bitlen ?n - 1) \<le> ?n" "?n < 2 ^ nat (bitlen ?n)"
    by simp_all
  from n have bl: "0 \<le> bitlen ?n - 1" "0 \<le> bitlen ?n" by (simp_all add: bitlen_alt_def)
  have "(of_int (2 ^ nat (bitlen ?n - 1)) :: real) \<le> of_int ?n"
    using b(1) by (simp only: of_int_le_iff)
  also have "\<dots> \<le> x" by simp
  finally have 1: "2 powi (bitlen ?n - 1) \<le> x"
    by (simp only: two_powi_nat [OF bl(1)])
  from b(2) have "?n + 1 \<le> 2 ^ nat (bitlen ?n)" by simp
  then have "(of_int (?n + 1) :: real) \<le> of_int (2 ^ nat (bitlen ?n))"
    by (simp only: of_int_le_iff)
  moreover have "x < of_int (?n + 1)" by linarith
  ultimately have "x < of_int (2 ^ nat (bitlen ?n))" by (rule less_le_trans [rotated])
  then have "x < 2 powi (bitlen ?n)"
    by (simp only: two_powi_nat [OF bl(2)])
  with 1 show ?thesis by simp
qed

lemma ilog2_lt_1:
  fixes x :: real
  assumes "0 < x" and "x < 1"
  shows "2 powi (- bitlen (\<lceil>1 / x\<rceil> - 1)) \<le> x \<and> x < 2 powi (- bitlen (\<lceil>1 / x\<rceil> - 1) + 1)"
proof -
  let ?c = "\<lceil>1 / x\<rceil>"
  let ?k = "bitlen (?c - 1)"
  from assms have y: "1 < 1 / x" by simp
  then have "1 < ?c" by (simp add: less_ceiling_iff)
  then have c: "0 < ?c - 1" by simp
  from bitlen_bounds [OF c] have b: "2 ^ nat (?k - 1) \<le> ?c - 1" "?c - 1 < 2 ^ nat ?k"
    by simp_all
  from c have k: "0 \<le> ?k - 1" "0 \<le> ?k" by (simp_all add: bitlen_alt_def)
  define A :: real where "A = of_int (2 ^ nat ?k)"
  define B :: real where "B = of_int (2 ^ nat (?k - 1))"
  have Apos: "0 < A" and Bpos: "0 < B" by (simp_all add: A_def B_def)
  from b(2) have "?c \<le> 2 ^ nat ?k" by simp
  then have "of_int ?c \<le> A" unfolding A_def by (simp only: of_int_le_iff)
  moreover have "1 / x \<le> of_int ?c" by simp
  ultimately have "1 / x \<le> A" by linarith
  with assms(1) Apos have "1 / A \<le> x"
    by (simp add: field_simps)
  then have 1: "2 powi (- ?k) \<le> x"
    by (simp only: two_powi_neg [OF k(2)] A_def)
  have "B \<le> of_int (?c - 1)"
    unfolding B_def using b(1) by (simp only: of_int_le_iff)
  moreover have "of_int (?c - 1) < 1 / x" by linarith
  ultimately have "B < 1 / x" by linarith
  with assms(1) Bpos have "x < 1 / B"
    by (simp add: field_simps)
  moreover have "- ?k + 1 = - (?k - 1)" by simp
  ultimately have 2: "x < 2 powi (- ?k + 1)"
    by (simp only: two_powi_neg [OF k(1)] B_def)
  from 1 2 show ?thesis by simp
qed

lemma ilog2_bounds:
  assumes "0 < x"
  shows "2 powi ilog2 x \<le> x" and "x < 2 powi (ilog2 x + 1)"
proof -
  have "2 powi ilog2 x \<le> x \<and> x < 2 powi (ilog2 x + 1)"
  proof (cases "1 \<le> x")
    case True
    with ilog2_ge_1 [OF True] show ?thesis by (simp add: ilog2_def)
  next
    case False
    with assms have "x < 1" by simp
    from ilog2_lt_1 [OF assms this] False show ?thesis by (simp add: ilog2_def)
  qed
  then show "2 powi ilog2 x \<le> x" and "x < 2 powi (ilog2 x + 1)" by simp_all
qed

lemma two_powi_less_cancel:
  assumes "(2::real) powi a < 2 powi b"
  shows "a < b"
proof (rule ccontr)
  assume "\<not> a < b"
  then have "b \<le> a" by simp
  then have "(2::real) powi b \<le> 2 powi a" by (intro power_int_increasing) simp_all
  with assms show False by simp
qed

lemma ilog2_unique:
  fixes x :: real
  assumes "2 powi k \<le> x" and "x < 2 powi (k + 1)"
  shows "ilog2 x = k"
proof -
  have "(0::real) < 2 powi k" by simp
  with assms(1) have x: "0 < x" by linarith
  from ilog2_bounds [OF x] assms
  have "(2::real) powi ilog2 x < 2 powi (k + 1)" "(2::real) powi k < 2 powi (ilog2 x + 1)"
    by linarith+
  then have "ilog2 x < k + 1" "k < ilog2 x + 1"
    by (auto dest: two_powi_less_cancel)
  then show ?thesis by simp
qed

lemma ilog2_mono:
  assumes "0 < x" and "x \<le> y"
  shows "ilog2 x \<le> ilog2 y"
proof -
  from assms have y: "0 < y" by simp
  from ilog2_bounds(1) [OF assms(1)] ilog2_bounds(2) [OF y] assms(2)
  have "(2::real) powi ilog2 x < 2 powi (ilog2 y + 1)" by linarith
  then have "ilog2 x < ilog2 y + 1" by (rule two_powi_less_cancel)
  then show ?thesis by simp
qed

lemma expOf_ge: "- 1074 \<le> expOf x"
  by (simp add: expOf_def)

lemma expOf_minus [simp]: "expOf (- x) = expOf x"
  by (simp add: expOf_def)

lemma expOf_upper:
  assumes "x \<noteq> 0"
  shows "\<bar>x\<bar> < 2 powi (expOf x + 53)"
proof -
  from assms have "0 < \<bar>x\<bar>" by simp
  then have "\<bar>x\<bar> < 2 powi (ilog2 \<bar>x\<bar> + 1)" by (rule ilog2_bounds)
  also have "\<dots> \<le> 2 powi (expOf x + 53)"
    by (intro power_int_increasing) (simp_all add: expOf_def)
  finally show ?thesis .
qed

lemma expOf_lower:
  assumes "x \<noteq> 0" and "- 1074 < expOf x"
  shows "2 powi (expOf x + 52) \<le> \<bar>x\<bar>"
proof -
  from assms(2) have "expOf x = ilog2 \<bar>x\<bar> - 52" by (simp add: expOf_def max_def split: if_splits)
  then have "expOf x + 52 = ilog2 \<bar>x\<bar>" by simp
  moreover from assms(1) have "2 powi ilog2 \<bar>x\<bar> \<le> \<bar>x\<bar>" by (intro ilog2_bounds) simp
  ultimately show ?thesis by simp
qed

lemma expOf_mono:
  assumes "x \<noteq> 0" and "\<bar>x\<bar> \<le> \<bar>y\<bar>"
  shows "expOf x \<le> expOf y"
proof -
  from assms have "ilog2 \<bar>x\<bar> \<le> ilog2 \<bar>y\<bar>" by (intro ilog2_mono) simp_all
  then show ?thesis by (simp add: expOf_def)
qed

lemma rnd_0 [simp]: "rnd 0 = 0"
  by (simp add: rnd_def)

lemma rnd_minus: "rnd (- x) = - rnd x"
proof (cases "x = 0")
  case True
  then show ?thesis by simp
next
  case False
  have "- x / 2 powi expOf x = - (x / 2 powi expOf x)" by simp
  with False show ?thesis
    by (simp add: rnd_def rne_minus)
qed

lemma rne_nonneg: "0 \<le> y \<Longrightarrow> 0 \<le> rne y"
  using rne_mono [of 0 y] rne_of_int [of 0] by simp

lemma rnd_nonneg: "0 \<le> x \<Longrightarrow> 0 \<le> rnd x"
  by (simp add: rnd_def rne_nonneg)

lemma rnd_nonpos: "x \<le> 0 \<Longrightarrow> rnd x \<le> 0"
  using rnd_nonneg [of "- x"] by (simp add: rnd_minus)

lemma two_powi_diff:
  assumes "e \<le> j"
  shows "(2::real) powi j / 2 powi e = of_int (2 ^ nat (j - e))"
proof -
  have "(2::real) powi j = 2 powi (j - e) * 2 powi e"
    by (simp add: power_int_add [symmetric])
  then have "(2::real) powi j / 2 powi e = 2 powi (j - e)" by simp
  also from assms have "\<dots> = of_int (2 ^ nat (j - e))" by (intro two_powi_nat) simp
  finally show ?thesis .
qed

lemma rnd_scaled:
  assumes "x \<noteq> 0" and "x / 2 powi expOf x = of_int n"
  shows "rnd x = x"
proof -
  from assms have "rnd x = of_int n * 2 powi expOf x"
    by (simp add: rnd_def)
  also from assms(2) have "\<dots> = x" by (simp add: field_simps)
  finally show ?thesis .
qed

lemma rnd_representable:
  assumes x: "x = of_int m * 2 powi j" and m: "\<bar>m\<bar> < 2 ^ 53" and j: "- 1074 \<le> j"
  shows "rnd x = x"
proof (cases "x = 0")
  case True
  then show ?thesis by simp
next
  case False
  have "\<bar>x\<bar> = of_int \<bar>m\<bar> * 2 powi j" by (simp add: x abs_mult)
  also have "\<dots> < of_int (2 ^ 53) * 2 powi j"
    using m by (intro mult_strict_right_mono) (simp_all only: of_int_less_iff zero_less_power_int zero_less_numeral)
  also have "\<dots> = 2 powi (53 + j)"
    by (simp add: power_int_add)
  finally have "\<bar>x\<bar> < 2 powi (53 + j)" .
  moreover from False have "2 powi ilog2 \<bar>x\<bar> \<le> \<bar>x\<bar>" by (intro ilog2_bounds) simp
  ultimately have "(2::real) powi ilog2 \<bar>x\<bar> < 2 powi (53 + j)" by linarith
  then have "ilog2 \<bar>x\<bar> < 53 + j" by (rule two_powi_less_cancel)
  with j have e: "expOf x \<le> j" by (simp add: expOf_def)
  have "x / 2 powi expOf x = of_int m * (2 powi j / 2 powi expOf x)"
    by (simp add: x)
  also have "\<dots> = of_int (m * 2 ^ nat (j - expOf x))"
    by (simp add: two_powi_diff [OF e])
  finally show ?thesis by (rule rnd_scaled [OF False])
qed

lemma scale_mono:
  "a \<le> b \<Longrightarrow> real_of_int a * 2 powi e \<le> real_of_int b * 2 powi e"
  by (intro mult_right_mono) simp_all

lemma rnd_upper:
  assumes "0 < x"
  shows "rnd x \<le> 2 powi (expOf x + 53)"
proof -
  let ?e = "expOf x"
  from assms have x: "x \<noteq> 0" by simp
  from expOf_upper [OF x] assms have "x < 2 powi (?e + 53)" by simp
  also have "\<dots> = of_int (2 ^ 53) * 2 powi ?e" by (simp add: power_int_add)
  finally have "x / 2 powi ?e < of_int (2 ^ 53)"
    by (simp add: field_simps)
  then have "rne (x / 2 powi ?e) \<le> rne (of_int (2 ^ 53))"
    by (intro rne_mono) simp
  then have "rne (x / 2 powi ?e) \<le> 2 ^ 53" by (simp only: rne_of_int)
  then have "real_of_int (rne (x / 2 powi ?e)) * 2 powi ?e \<le> real_of_int (2 ^ 53) * 2 powi ?e"
    by (rule scale_mono)
  with x show ?thesis by (simp add: rnd_def power_int_add)
qed

lemma rnd_lower:
  assumes "0 < x" and "- 1074 < expOf x"
  shows "2 powi (expOf x + 52) \<le> rnd x"
proof -
  let ?e = "expOf x"
  from assms have x: "x \<noteq> 0" by simp
  from expOf_lower [OF x assms(2)] assms(1) have "2 powi (?e + 52) \<le> x" by simp
  moreover have "(2::real) powi (?e + 52) = of_int (2 ^ 52) * 2 powi ?e" by (simp add: power_int_add)
  ultimately have "of_int (2 ^ 52) \<le> x / 2 powi ?e"
    by (simp add: field_simps)
  then have "rne (of_int (2 ^ 52)) \<le> rne (x / 2 powi ?e)"
    by (rule rne_mono)
  then have "2 ^ 52 \<le> rne (x / 2 powi ?e)" by (simp only: rne_of_int)
  then have "real_of_int (2 ^ 52) * 2 powi ?e \<le> real_of_int (rne (x / 2 powi ?e)) * 2 powi ?e"
    by (rule scale_mono)
  with x show ?thesis by (simp add: rnd_def power_int_add)
qed

lemma rnd_mono_pos:
  assumes "0 < x" and "x \<le> y"
  shows "rnd x \<le> rnd y"
proof -
  from assms have y: "0 < y" by simp
  from assms have "expOf x \<le> expOf y" by (intro expOf_mono) simp_all
  then consider "expOf x = expOf y" | "expOf x < expOf y" by linarith
  then show ?thesis
  proof cases
    case 1
    from assms(2) have "x / 2 powi expOf y \<le> y / 2 powi expOf y"
      by (intro divide_right_mono) simp_all
    then have "rne (x / 2 powi expOf y) \<le> rne (y / 2 powi expOf y)" by (rule rne_mono)
    then have "real_of_int (rne (x / 2 powi expOf y)) * 2 powi expOf y
        \<le> real_of_int (rne (y / 2 powi expOf y)) * 2 powi expOf y"
      by (rule scale_mono)
    with 1 assms(1) y show ?thesis by (simp add: rnd_def)
  next
    case 2
    have "rnd x \<le> 2 powi (expOf x + 53)" using assms(1) by (rule rnd_upper)
    also have "\<dots> \<le> 2 powi (expOf y + 52)"
      using 2 by (intro power_int_increasing) simp_all
    also have "\<dots> \<le> rnd y"
      using y 2 expOf_ge [of x] by (intro rnd_lower) simp_all
    finally show ?thesis .
  qed
qed

lemma rnd_mono:
  assumes "x \<le> y"
  shows "rnd x \<le> rnd y"
proof -
  consider "0 < x" | "x \<le> 0" "0 \<le> y" | "y < 0" by linarith
  then show ?thesis
  proof cases
    case 1
    then show ?thesis using assms by (rule rnd_mono_pos)
  next
    case 2
    then have "rnd x \<le> 0" "0 \<le> rnd y" by (simp_all add: rnd_nonpos rnd_nonneg)
    then show ?thesis by simp
  next
    case 3
    with assms have "0 < - y" "- y \<le> - x" by simp_all
    then have "rnd (- y) \<le> rnd (- x)" by (rule rnd_mono_pos)
    then show ?thesis by (simp add: rnd_minus)
  qed
qed

lemma round64_cases:
  "round64 x = (if 2 ^ 1024 \<le> rnd x then PosInf else if rnd x \<le> - (2 ^ 1024) then NegInf else Fin (rnd x))"
  by (simp add: round64_def Let_def)

lemma round64_not_NaN [simp]: "round64 x \<noteq> NaN"
  by (simp add: round64_cases)

lemma round64_Fin: "round64 x = Fin y \<Longrightarrow> y = rnd x"
  by (simp add: round64_cases split: if_splits)

lemma round64_mono:
  assumes "x \<le> y"
  shows "jsLe (round64 x) (round64 y)"
proof -
  from assms have "rnd x \<le> rnd y" by (rule rnd_mono)
  then show ?thesis by (simp add: round64_cases)
qed

lemma round64_between:
  assumes "lo \<le> x" and "x \<le> hi" and "isDouble lo" and "isDouble hi"
  shows "round64 x = Fin (rnd x) \<and> lo \<le> rnd x \<and> rnd x \<le> hi"
proof -
  from assms(3,4) have l: "round64 lo = Fin lo" and h: "round64 hi = Fin hi"
    by (simp_all add: isDouble_def)
  from round64_mono [OF assms(1)] round64_mono [OF assms(2)] l h
  have "jsLe (Fin lo) (round64 x)" "jsLe (round64 x) (Fin hi)" by simp_all
  then show ?thesis
    by (cases "round64 x") (auto dest: round64_Fin)
qed

lemma isDouble_representable:
  assumes "x = of_int m * 2 powi j" and "\<bar>m\<bar> < 2 ^ 53" and "- 1074 \<le> j" and "j \<le> 971"
  shows "isDouble x"
proof -
  from assms(1-3) have r: "rnd x = x" by (rule rnd_representable)
  have "\<bar>x\<bar> = of_int \<bar>m\<bar> * 2 powi j" by (simp add: assms(1) abs_mult)
  also have "\<dots> \<le> of_int (2 ^ 53) * 2 powi j"
    using assms(2) by (intro scale_mono) simp
  also have "\<dots> = 2 powi (53 + j)" by (simp add: power_int_add)
  also have "\<dots> \<le> 2 powi 1024"
    using assms(4) by (intro power_int_increasing) simp_all
  finally have "\<bar>x\<bar> \<le> 2 ^ 1024" by simp
  moreover have "\<bar>x\<bar> \<noteq> 2 ^ 1024"
  proof
    assume "\<bar>x\<bar> = 2 ^ 1024"
    with \<open>\<bar>x\<bar> = of_int \<bar>m\<bar> * 2 powi j\<close> have "of_int \<bar>m\<bar> * 2 powi j = (2::real) powi 1024" by simp
    then have "real_of_int \<bar>m\<bar> = 2 powi 1024 / 2 powi j" by (simp add: field_simps)
    also have "\<dots> = of_int (2 ^ nat (1024 - j))"
      using assms(4) by (intro two_powi_diff) simp
    finally have "\<bar>m\<bar> = 2 ^ nat (1024 - j)" by (simp only: of_int_eq_iff)
    moreover from assms(4) have "(2::int) ^ 53 \<le> 2 ^ nat (1024 - j)"
      by (intro power_increasing) simp_all
    ultimately show False using assms(2) by simp
  qed
  ultimately have "\<bar>x\<bar> < 2 ^ 1024" by simp
  with r show ?thesis by (simp add: isDouble_def round64_cases abs_less_iff)
qed

lemma isDouble_of_int:
  assumes "\<bar>k\<bar> < 2 ^ 53"
  shows "isDouble (of_int k)"
  using assms by (intro isDouble_representable [of _ k 0]) simp_all

lemma isDouble_0 [simp]: "isDouble 0"
  using isDouble_of_int [of 0] by simp

lemma isDouble_1 [simp]: "isDouble 1"
  using isDouble_of_int [of 1] by simp

lemma round64_0 [simp]: "round64 0 = Fin 0"
  using isDouble_0 by (simp add: isDouble_def)

lemma round64_1 [simp]: "round64 1 = Fin 1"
  using isDouble_1 by (simp add: isDouble_def)

section \<open>Properties of the counter animation\<close>

lemma animate_Some:
  "duration \<noteq> Fin 0 \<Longrightarrow>
   animate rt target duration c t =
     Some \<lparr>count = mathFloor (jsMul (easeOutQuart rt (progressOf (jsSub t (startOf c t)) duration)) target),
           startTime = Some (startOf c t),
           rafPending = jsLess (progressOf (jsSub t (startOf c t)) duration) (Fin 1)\<rparr>"
  by (simp add: animate_def Let_def)

lemma jsDiv_ge_1:
  assumes "0 < d" and "jsLe (Fin d) e"
  shows "jsLe (Fin 1) (jsDiv e (Fin d))"
proof (cases e)
  case (Fin x)
  with assms have "1 \<le> x / d" by simp
  then have "jsLe (round64 1) (round64 (x / d))" by (rule round64_mono)
  with Fin assms(1) show ?thesis by simp
qed (use assms in simp_all)

lemma mathMin_ge_1: "jsLe (Fin 1) q \<Longrightarrow> mathMin q (Fin 1) = Fin 1"
  by (cases q) simp_all

lemma progressOf_complete:
  assumes "0 < d" and "jsLe (Fin d) e"
  shows "progressOf e (Fin d) = Fin 1"
  unfolding progressOf_def using assms by (intro mathMin_ge_1 jsDiv_ge_1)

lemma easeOutQuart_1: "easeOutQuart rt (Fin 1) = Fin 1"
  by (simp add: easeOutQuart_def)

lemma count_at_end:
  assumes "isDouble g"
  shows "mathFloor (jsMul (easeOutQuart rt (Fin 1)) (Fin g)) = Fin (of_int \<lfloor>g\<rfloor>)"
  using assms by (simp add: easeOutQuart_1 isDouble_def)

lemma final_frame:
  assumes "0 < d" and "isDouble (of_int k)" and "jsLe (Fin d) (jsSub t (startOf c t))"
  shows "animate rt (Fin (of_int k)) (Fin d) c t =
    Some \<lparr>count = Fin (of_int k), startTime = Some (startOf c t), rafPending = False\<rparr>"
proof -
  from assms(1,3) have "progressOf (jsSub t (startOf c t)) (Fin d) = Fin 1"
    by (rule progressOf_complete)
  with assms(1,2) show ?thesis
    by (simp add: animate_Some count_at_end)
qed

lemma elapsed_reached:
  assumes "isDouble d" and "d \<le> t - s"
  shows "jsLe (Fin d) (jsSub (Fin t) (Fin s))"
proof -
  from assms(2) have "jsLe (round64 d) (round64 (t - s))" by (rule round64_mono)
  with assms(1) show ?thesis by (simp add: isDouble_def)
qed

lemma frames_not_pending: "\<not> rafPending c \<Longrightarrow> frames rt target duration c ts = Some []"
  by (cases ts) simp_all

text \<open>A frame over a finite elapsed time either requests another frame or is final.\<close>

lemma progress_cases:
  assumes "0 < d"
  shows "jsLess (progressOf (jsSub (Fin t) (Fin s)) (Fin d)) (Fin 1) \<or>
    progressOf (jsSub (Fin t) (Fin s)) (Fin d) = Fin 1"
proof -
  define e where "e = round64 (t - s)"
  have e: "jsSub (Fin t) (Fin s) = e" by (simp add: e_def)
  have "e \<noteq> NaN" by (simp add: e_def)
  then have "jsDiv e (Fin d) \<noteq> NaN"
    using assms by (cases e) simp_all
  then show ?thesis
    unfolding e progressOf_def by (cases "jsDiv e (Fin d)") auto
qed

lemma frame_pending_or_final:
  assumes "0 < d" and "isDouble (of_int k)" and "startOf c (Fin t) = Fin s"
  shows "\<exists>c'. animate rt (Fin (of_int k)) (Fin d) c (Fin t) = Some c' \<and>
    startTime c' = Some (Fin s) \<and>
    (rafPending c' \<or> count c' = Fin (of_int k))"
proof -
  from progress_cases [OF assms(1), of t s]
  show ?thesis
  proof
    assume "jsLess (progressOf (jsSub (Fin t) (Fin s)) (Fin d)) (Fin 1)"
    with assms show ?thesis by (simp add: animate_Some)
  next
    assume "progressOf (jsSub (Fin t) (Fin s)) (Fin d) = Fin 1"
    with assms show ?thesis by (simp add: animate_Some count_at_end)
  qed
qed

lemma frames_reach_target:
  assumes "0 < d" and "isDouble d" and "isDouble (of_int k)" and "s \<noteq> 0"
  shows "rafPending c \<Longrightarrow> startTime c = Some (Fin s) \<Longrightarrow>
    \<exists>t \<in> set ts. d \<le> t - s \<Longrightarrow>
    \<exists>cs. frames rt (Fin (of_int k)) (Fin d) c (map Fin ts) = Some cs \<and> cs \<noteq> [] \<and>
      count (last cs) = Fin (of_int k) \<and> \<not> rafPending (last cs)"
proof (induction ts arbitrary: c)
  case Nil
  then show ?case by simp
next
  case (Cons t ts)
  from Cons.prems(2) assms(4) have st: "startOf c (Fin t) = Fin s"
    by (simp add: startOf_def)
  from frame_pending_or_final [OF assms(1,3) st]
  obtain c' where c': "animate rt (Fin (of_int k)) (Fin d) c (Fin t) = Some c'"
    "startTime c' = Some (Fin s)" "rafPending c' \<or> count c' = Fin (of_int k)"
    by blast
  show ?case
  proof (cases "rafPending c'")
    case False
    with c'(3) have "count c' = Fin (of_int k)" by simp
    moreover from False have "frames rt (Fin (of_int k)) (Fin d) c' (map Fin ts) = Some []"
      by (rule frames_not_pending)
    ultimately show ?thesis
      using c'(1) False Cons.prems(1) by simp
  next
    case True
    have "\<not> d \<le> t - s"
    proof
      assume "d \<le> t - s"
      with assms(2) have "jsLe (Fin d) (jsSub (Fin t) (startOf c (Fin t)))"
        unfolding st by (rule elapsed_reached)
      from final_frame [OF assms(1,3) this, of rt] c'(1) True show False by simp
    qed
    with Cons.prems(3) have "\<exists>t \<in> set ts. d \<le> t - s" by auto
    with Cons.IH [OF True c'(2)]
    obtain cs where "frames rt (Fin (of_int k)) (Fin d) c' (map Fin ts) = Some cs" "cs \<noteq> []"
      "count (last cs) = Fin (of_int k)" "\<not> rafPending (last cs)"
      by blast
    with c'(1) Cons.prems(1) show ?thesis by simp
  qed
qed

lemma rne_scaled_upper:
  assumes "0 < x"
  shows "rne (x / 2 powi expOf x) \<le> 2 ^ 53"
proof -
  from assms have x: "x \<noteq> 0" by simp
  from expOf_upper [OF x] assms have "x < 2 powi (expOf x + 53)" by simp
  also have "\<dots> = of_int (2 ^ 53) * 2 powi expOf x" by (simp add: power_int_add)
  finally have "x / 2 powi expOf x < of_int (2 ^ 53)"
    by (simp add: field_simps)
  then have "rne (x / 2 powi expOf x) \<le> rne (of_int (2 ^ 53))"
    by (intro rne_mono) simp
  then show ?thesis by (simp only: rne_of_int)
qed

lemma rnd_idem_pos:
  assumes "0 < x"
  shows "rnd (rnd x) = rnd x"
proof -
  let ?e = "expOf x"
  let ?R = "rne (x / 2 powi ?e)"
  from assms have r: "rnd x = of_int ?R * 2 powi ?e" by (simp add: rnd_def)
  from assms have "0 \<le> ?R" by (intro rne_nonneg) simp
  moreover note rne_scaled_upper [OF assms]
  ultimately consider "\<bar>?R\<bar> < 2 ^ 53" | "?R = 2 ^ 53" by linarith
  then show ?thesis
  proof cases
    case 1
    from r 1 expOf_ge show ?thesis by (rule rnd_representable)
  next
    case 2
    have "rnd x = of_int (2 ^ 53) * 2 powi ?e" by (simp only: r 2)
    also have "\<dots> = of_int (2 ^ 52) * 2 powi (?e + 1)" by (simp add: power_int_add)
    finally have "rnd x = of_int (2 ^ 52) * 2 powi (?e + 1)" .
    moreover have "\<bar>(2::int) ^ 52\<bar> < 2 ^ 53" by simp
    moreover have "- 1074 \<le> ?e + 1" using expOf_ge [of x] by simp
    ultimately show ?thesis by (rule rnd_representable)
  qed
qed

lemma rnd_idem: "rnd (rnd x) = rnd x"
proof -
  consider "0 < x" | "x = 0" | "0 < - x" by linarith
  then show ?thesis
  proof cases
    case 1
    then show ?thesis by (rule rnd_idem_pos)
  next
    case 2
    then show ?thesis by simp
  next
    case 3
    then have "rnd (rnd (- x)) = rnd (- x)" by (rule rnd_idem_pos)
    then show ?thesis by (simp add: rnd_minus)
  qed
qed

lemma isDouble_round64: "round64 x = Fin y \<Longrightarrow> isDouble y"
  by (auto simp: isDouble_def round64_cases rnd_idem split: if_splits)

lemma isDouble_jsSub: "jsSub a b = Fin x \<Longrightarrow> isDouble x"
  by (cases a; cases b) (auto dest: isDouble_round64)

lemma isDouble_rnd: "isDouble x \<Longrightarrow> rnd x = x"
  by (auto simp: isDouble_def dest: round64_Fin)

text \<open>The significand of a positive double.\<close>

lemma double_significand:
  assumes "isDouble x" and "0 < x"
  obtains n where "x = of_int n * 2 powi expOf x" and "n < 2 ^ 53"
    and "- 1074 < expOf x \<longrightarrow> 2 ^ 52 \<le> n"
proof -
  let ?e = "expOf x"
  let ?n = "rne (x / 2 powi ?e)"
  from assms have x: "x \<noteq> 0" by simp
  from assms(1) have "rnd x = x" by (rule isDouble_rnd)
  with x have eq: "x = of_int ?n * 2 powi ?e" by (simp add: rnd_def)
  from expOf_upper [OF x] assms(2) have "x < 2 powi (?e + 53)" by simp
  also have "\<dots> = of_int (2 ^ 53) * 2 powi ?e" by (simp add: power_int_add)
  finally have "of_int ?n * 2 powi ?e < real_of_int (2 ^ 53) * 2 powi ?e"
    using eq by simp
  then have "real_of_int ?n < of_int (2 ^ 53)" by (simp only: mult_less_cancel_right_pos zero_less_power_int zero_less_numeral)
  then have up: "?n < 2 ^ 53" by (simp only: of_int_less_iff)
  have low: "2 ^ 52 \<le> ?n" if "- 1074 < ?e"
  proof -
    from expOf_lower [OF x that] assms(2) have "2 powi (?e + 52) \<le> x" by simp
    moreover have "(2::real) powi (?e + 52) = of_int (2 ^ 52) * 2 powi ?e"
      by (simp add: power_int_add)
    ultimately have "real_of_int (2 ^ 52) * 2 powi ?e \<le> of_int ?n * 2 powi ?e"
      using eq by simp
    then have "real_of_int (2 ^ 52) \<le> of_int ?n"
      by (simp only: mult_le_cancel_right_pos zero_less_power_int zero_less_numeral)
    then show ?thesis by (simp only: of_int_le_iff)
  qed
  from low have "- 1074 < ?e \<longrightarrow> 2 ^ 52 \<le> ?n" by (rule impI)
  with eq up show ?thesis by (rule that)
qed

lemma double_gap:
  assumes x: "isDouble x" and d: "isDouble d" and "0 < x" and "x < d"
  shows "x \<le> d * (1 - 1 / 2 ^ 53)"
proof -
  let ?F = "expOf x" and ?E = "expOf d"
  define a :: real where "a = 2 powi ?E"
  have a: "0 < a" by (simp add: a_def)
  from assms have dpos: "0 < d" by simp
  from x \<open>0 < x\<close> obtain n where n: "x = of_int n * 2 powi ?F" "n < 2 ^ 53"
    by (rule double_significand)
  from d dpos obtain m where m: "d = of_int m * a" "m < 2 ^ 53" "- 1074 < ?E \<longrightarrow> 2 ^ 52 \<le> m"
    unfolding a_def by (rule double_significand)
  from assms have "?F \<le> ?E" by (intro expOf_mono) simp_all
  then consider "?F = ?E" | "?F < ?E" by linarith
  then show ?thesis
  proof cases
    case 1
    with n(1) have xa: "x = of_int n * a" by (simp add: a_def)
    with m(1) \<open>x < d\<close> a have "real_of_int n < of_int m" by simp
    then have "n + 1 \<le> m" by simp
    then have "real_of_int (n + 1) \<le> of_int m" by (simp only: of_int_le_iff)
    with a have "real_of_int (n + 1) * a \<le> of_int m * a" by (intro mult_right_mono) simp_all
    with xa m(1) have 1: "x + a \<le> d" by (simp add: algebra_simps)
    from m(2) have "real_of_int m < of_int (2 ^ 53)" by (simp only: of_int_less_iff)
    with a have "of_int m * a < of_int (2 ^ 53) * a" by (intro mult_strict_right_mono)
    with m(1) have "d < 2 ^ 53 * a" by simp
    then have "d / 2 ^ 53 < a" by (simp add: field_simps)
    with 1 show ?thesis by (simp add: algebra_simps)
  next
    case 2
    with expOf_ge [of x] have "- 1074 < ?E" by simp
    with m(3) have "2 ^ 52 \<le> m" by simp
    then have "real_of_int (2 ^ 52) \<le> of_int m" by (simp only: of_int_le_iff)
    with a have "real_of_int (2 ^ 52) * a \<le> of_int m * a" by (intro mult_right_mono) simp_all
    with m(1) have dl: "2 ^ 52 * a \<le> d" by simp
    from n(2) have "n \<le> 2 ^ 53 - 1" by simp
    then have "real_of_int n \<le> of_int (2 ^ 53 - 1)" by (simp only: of_int_le_iff)
    then have "real_of_int n * 2 powi ?F \<le> real_of_int (2 ^ 53 - 1) * 2 powi ?F"
      by (rule scale_mono [OF iffD1 [OF of_int_le_iff]])
    moreover from 2 have "(2::real) powi ?F \<le> 2 powi (?E - 1)"
      by (intro power_int_increasing) simp_all
    then have "real_of_int (2 ^ 53 - 1) * 2 powi ?F \<le> real_of_int (2 ^ 53 - 1) * 2 powi (?E - 1)"
      by (intro mult_left_mono) simp_all
    moreover have "(2::real) powi (?E - 1) = a / 2"
      by (simp add: a_def power_int_diff)
    ultimately have xu: "x \<le> (2 ^ 53 - 1) * (a / 2)"
      using n(1) by simp
    have "(2 ^ 53 - 1) * (a / 2) = 2 ^ 52 * a * (1 - 1 / 2 ^ 53)"
      by (simp add: field_simps)
    also from dl have "\<dots> \<le> d * (1 - 1 / 2 ^ 53)"
      by (intro mult_right_mono) simp_all
    finally show ?thesis using xu by simp
  qed
qed

lemma isDouble_below_1: "isDouble (1 - 1 / 2 ^ 53)"
proof -
  have "(1 - 1 / 2 ^ 53 :: real) = of_int (2 ^ 53 - 1) * 2 powi (- 53)"
    by (simp add: power_int_minus field_simps)
  then show ?thesis
    by (rule isDouble_representable) simp_all
qed

lemma quotient_below_1:
  assumes "isDouble x" and "isDouble d" and "0 < d" and "x < d"
  shows "jsLess (round64 (x / d)) (Fin 1)"
proof -
  let ?u = "1 - 1 / 2 ^ 53 :: real"
  have "x / d \<le> ?u"
  proof (cases "0 < x")
    case True
    with assms have "x \<le> d * ?u" by (intro double_gap)
    with assms(3) show ?thesis by (simp add: field_simps)
  next
    case False
    with assms(3) have "x / d \<le> 0" by (simp add: divide_le_0_iff)
    moreover have "0 \<le> ?u" by simp
    ultimately show ?thesis by (rule order_trans)
  qed
  then have "jsLe (round64 (x / d)) (round64 ?u)" by (rule round64_mono)
  with isDouble_below_1 have "jsLe (round64 (x / d)) (Fin ?u)" by (simp add: isDouble_def)
  then show ?thesis by (cases "round64 (x / d)") simp_all
qed

lemma earlier_frame:
  assumes "0 < d" and "isDouble d" and "jsLess (jsSub t (startOf c t)) (Fin d)"
  shows "\<exists>c'. animate rt target (Fin d) c t = Some c' \<and> rafPending c' \<and>
    startTime c' = Some (startOf c t)"
proof -
  let ?e = "jsSub t (startOf c t)"
  have "jsLess (progressOf ?e (Fin d)) (Fin 1)"
  proof (cases ?e)
    case (Fin x)
    then have "isDouble x" by (rule isDouble_jsSub)
    moreover from Fin assms(3) have "x < d" by simp
    ultimately have "jsLess (round64 (x / d)) (Fin 1)"
      using assms(1,2) by (intro quotient_below_1)
    with Fin assms(1) show ?thesis
      by (cases "round64 (x / d)") (simp_all add: progressOf_def)
  next
    case NegInf
    with assms(1) show ?thesis by (simp add: progressOf_def)
  qed (use assms(3) in simp_all)
  with assms(1) show ?thesis by (simp add: animate_Some)
qed

lemma jsLe_round64_bounds [simp]: "jsLe NegInf (round64 z)" "jsLe (round64 z) PosInf"
  by (cases "round64 z"; simp)+

lemma jsDiv_mono:
  assumes "0 < d" and "jsLe a b"
  shows "jsLe (jsDiv a (Fin d)) (jsDiv b (Fin d))"
proof (cases a)
  case (Fin x)
  note a = this
  show ?thesis
  proof (cases b)
    case (Fin y)
    with a assms have "x / d \<le> y / d" by (simp add: divide_right_mono)
    then have "jsLe (round64 (x / d)) (round64 (y / d))" by (rule round64_mono)
    with a Fin assms(1) show ?thesis by simp
  qed (use a assms in simp_all)
next
  case NegInf
  with assms show ?thesis by (cases b) simp_all
next
  case PosInf
  with assms show ?thesis by (cases b) simp_all
qed (use assms in simp_all)

lemma mathMin_1_Fin:
  assumes "jsLe (Fin 0) q"
  shows "mathMin q (Fin 1) = Fin (case q of Fin y \<Rightarrow> min y 1 | _ \<Rightarrow> 1)"
  using assms by (cases q) (simp_all add: min_def)

lemma progress_mono:
  assumes "0 < d" and "s \<le> t1" and "t1 \<le> t2"
  obtains p1 p2 where "progressOf (jsSub (Fin t1) (Fin s)) (Fin d) = Fin p1"
    and "progressOf (jsSub (Fin t2) (Fin s)) (Fin d) = Fin p2"
    and "0 \<le> p1" and "p1 \<le> p2" and "p2 \<le> 1"
proof -
  let ?q1 = "jsDiv (round64 (t1 - s)) (Fin d)" and ?q2 = "jsDiv (round64 (t2 - s)) (Fin d)"
  let ?p1 = "case ?q1 of Fin y \<Rightarrow> min y 1 | _ \<Rightarrow> 1"
  let ?p2 = "case ?q2 of Fin y \<Rightarrow> min y 1 | _ \<Rightarrow> 1"
  from assms have "0 \<le> t1 - s" "t1 - s \<le> t2 - s" by simp_all
  then have "jsLe (round64 0) (round64 (t1 - s))" "jsLe (round64 (t1 - s)) (round64 (t2 - s))"
    by (simp_all only: round64_mono)
  then have "jsLe (jsDiv (round64 0) (Fin d)) ?q1" and q: "jsLe ?q1 ?q2"
    using assms(1) by (simp_all only: jsDiv_mono)
  with assms(1) have 1: "jsLe (Fin 0) ?q1" by simp
  with q have 2: "jsLe (Fin 0) ?q2" by (cases ?q1; cases ?q2) simp_all
  have a: "progressOf (jsSub (Fin t1) (Fin s)) (Fin d) = Fin ?p1"
    using mathMin_1_Fin [OF 1] by (simp add: progressOf_def)
  have b: "progressOf (jsSub (Fin t2) (Fin s)) (Fin d) = Fin ?p2"
    using mathMin_1_Fin [OF 2] by (simp add: progressOf_def)
  from 1 have c: "0 \<le> ?p1" by (cases ?q1) simp_all
  have d: "?p2 \<le> 1" by (cases ?q2) simp_all
  from 1 q have e: "?p1 \<le> ?p2" by (cases ?q1; cases ?q2) (simp_all add: min_def)
  from a b c e d show ?thesis by (rule that)
qed

lemma unit_round:
  assumes "0 \<le> x" and "x \<le> 1"
  shows "round64 x = Fin (rnd x)" and "0 \<le> rnd x" and "rnd x \<le> 1" and "isDouble (rnd x)"
proof -
  from round64_between [OF assms isDouble_0 isDouble_1]
  show "round64 x = Fin (rnd x)" and "0 \<le> rnd x" and "rnd x \<le> 1" by simp_all
  then show "isDouble (rnd x)" by (intro isDouble_round64)
qed

lemma powMonotoneD:
  assumes "powMonotone rt" and "isDouble x" and "isDouble y" and "0 < x" and "x \<le> y" and "y \<le> 1"
  shows "\<exists>v w. pow4 rt x = Fin v \<and> pow4 rt y = Fin w \<and> 0 \<le> v \<and> v \<le> w \<and> w \<le> 1"
  using assms unfolding powMonotone_def by blast

lemma pow_unit:
  assumes "powMonotone rt" and "isDouble u2" and "isDouble u1"
    and "0 \<le> u2" and "u2 \<le> u1" and "u1 \<le> 1"
  obtains b1 b2 where "mathPow4 rt (Fin u1) = Fin b1" and "mathPow4 rt (Fin u2) = Fin b2"
    and "0 \<le> b2" and "b2 \<le> b1" and "b1 \<le> 1"
proof (cases "u1 = 0")
  case True
  with assms have "u2 = 0" by simp
  with True show ?thesis by (intro that [of 0 0]) simp_all
next
  case False
  with assms have u1: "0 < u1" by simp
  show ?thesis
  proof (cases "u2 = 0")
    case True
    from powMonotoneD [OF assms(1,3,3) u1 order_refl assms(6)]
    obtain w where "pow4 rt u1 = Fin w" "0 \<le> w" "w \<le> 1"
      by auto
    with True False show ?thesis by (intro that [of w 0]) simp_all
  next
    case u2: False
    with assms have "0 < u2" by simp
    from powMonotoneD [OF assms(1-3) this assms(5,6)]
    obtain v w where "pow4 rt u2 = Fin v" "pow4 rt u1 = Fin w" "0 \<le> v" "v \<le> w" "w \<le> 1"
      by auto
    with False u2 show ?thesis by (intro that [of w v]) simp_all
  qed
qed

lemma count_mono:
  assumes rt: "powMonotone rt" and g: "isDouble g" "0 \<le> g"
    and p: "0 \<le> p1" "p1 \<le> p2" "p2 \<le> 1"
  obtains a1 a2 where "mathFloor (jsMul (easeOutQuart rt (Fin p1)) (Fin g)) = Fin (of_int a1)"
    and "mathFloor (jsMul (easeOutQuart rt (Fin p2)) (Fin g)) = Fin (of_int a2)"
    and "a1 \<le> a2"
proof -
  let ?u1 = "rnd (1 - p1)" and ?u2 = "rnd (1 - p2)"
  from p have r1: "0 \<le> 1 - p1" "1 - p1 \<le> 1" and r2: "0 \<le> 1 - p2" "1 - p2 \<le> 1"
    by simp_all
  note u1 = unit_round [OF r1] and u2 = unit_round [OF r2]
  from p have le: "?u2 \<le> ?u1" by (intro rnd_mono) simp
  from rt u2(4) u1(4) u2(2) le u1(3)
  obtain b1 b2 where b: "mathPow4 rt (Fin ?u1) = Fin b1" "mathPow4 rt (Fin ?u2) = Fin b2"
    "0 \<le> b2" "b2 \<le> b1" "b1 \<le> 1"
    by (rule pow_unit)
  let ?c1 = "rnd (1 - b1)" and ?c2 = "rnd (1 - b2)"
  from b have s1: "0 \<le> 1 - b1" "1 - b1 \<le> 1" and s2: "0 \<le> 1 - b2" "1 - b2 \<le> 1"
    by simp_all
  note c1 = unit_round [OF s1] and c2 = unit_round [OF s2]
  from b have c: "?c1 \<le> ?c2" by (intro rnd_mono) simp
  have e1: "easeOutQuart rt (Fin p1) = Fin ?c1"
    by (simp only: easeOutQuart_def jsSub.simps u1(1) b(1) c1(1))
  have e2: "easeOutQuart rt (Fin p2) = Fin ?c2"
    by (simp only: easeOutQuart_def jsSub.simps u2(1) b(2) c2(1))
  from c1(2,3) g(2) have m1: "0 \<le> ?c1 * g" "?c1 * g \<le> g"
    by (simp_all add: mult_left_le_one_le)
  from c2(2,3) g(2) have m2: "0 \<le> ?c2 * g" "?c2 * g \<le> g"
    by (simp_all add: mult_left_le_one_le)
  from round64_between [OF m1 isDouble_0 g(1)] have f1: "round64 (?c1 * g) = Fin (rnd (?c1 * g))"
    by simp
  from round64_between [OF m2 isDouble_0 g(1)] have f2: "round64 (?c2 * g) = Fin (rnd (?c2 * g))"
    by simp
  from c g(2) have "?c1 * g \<le> ?c2 * g" by (rule mult_right_mono)
  then have "rnd (?c1 * g) \<le> rnd (?c2 * g)" by (rule rnd_mono)
  then have "\<lfloor>rnd (?c1 * g)\<rfloor> \<le> \<lfloor>rnd (?c2 * g)\<rfloor>" by (rule floor_mono)
  moreover have "mathFloor (jsMul (easeOutQuart rt (Fin p1)) (Fin g)) = Fin (of_int \<lfloor>rnd (?c1 * g)\<rfloor>)"
    by (simp add: e1 f1)
  moreover have "mathFloor (jsMul (easeOutQuart rt (Fin p2)) (Fin g)) = Fin (of_int \<lfloor>rnd (?c2 * g)\<rfloor>)"
    by (simp add: e2 f2)
  ultimately show ?thesis by (intro that)
qed

lemma frame_count_mono:
  assumes "powMonotone rt" and "isDouble g" and "0 \<le> g" and "0 < d"
    and "s \<le> t1" and "t1 \<le> t2"
  shows "jsLe
    (mathFloor (jsMul (easeOutQuart rt (progressOf (jsSub (Fin t1) (Fin s)) (Fin d))) (Fin g)))
    (mathFloor (jsMul (easeOutQuart rt (progressOf (jsSub (Fin t2) (Fin s)) (Fin d))) (Fin g)))"
proof -
  from assms(4-6) obtain p1 p2 where p: "progressOf (jsSub (Fin t1) (Fin s)) (Fin d) = Fin p1"
    "progressOf (jsSub (Fin t2) (Fin s)) (Fin d) = Fin p2" "0 \<le> p1" "p1 \<le> p2" "p2 \<le> 1"
    by (rule progress_mono)
  from assms(1-3) p(3-5) obtain a1 a2 where
    "mathFloor (jsMul (easeOutQuart rt (Fin p1)) (Fin g)) = Fin (of_int a1)"
    "mathFloor (jsMul (easeOutQuart rt (Fin p2)) (Fin g)) = Fin (of_int a2)" "a1 \<le> a2"
    by (rule count_mono)
  with p(1,2) show ?thesis by simp
qed

lemma roundedPow_monotone: "powMonotone roundedPow"
  unfolding powMonotone_def
proof (intro allI impI)
  fix x y :: real
  assume a: "isDouble x \<and> isDouble y \<and> 0 < x \<and> x \<le> y \<and> y \<le> 1"
  then have x: "0 \<le> x ^ 4" "x ^ 4 \<le> 1" and y: "0 \<le> y ^ 4" "y ^ 4 \<le> 1"
    by (simp_all add: power_le_one)
  from a have "x ^ 4 \<le> y ^ 4" by (intro power_mono) simp_all
  then have "rnd (x ^ 4) \<le> rnd (y ^ 4)" by (rule rnd_mono)
  with unit_round [OF x] unit_round [OF y]
  show "\<exists>v w. pow4 roundedPow x = Fin v \<and> pow4 roundedPow y = Fin w \<and> 0 \<le> v \<and> v \<le> w \<and> w \<le> 1"
    by (simp add: roundedPow_def)
qed

lemma frames_successive:
  assumes rt: "powMonotone rt" and g: "isDouble g" "0 \<le> g" and d: "0 < d"
  shows "sorted (u # ts) \<Longrightarrow> startTime c = Some (Fin s) \<Longrightarrow> s \<le> u \<Longrightarrow> s = 0 \<longrightarrow> u = 0 \<Longrightarrow>
    count c = mathFloor (jsMul (easeOutQuart rt (progressOf (jsSub (Fin u) (Fin s)) (Fin d))) (Fin g)) \<Longrightarrow>
    \<exists>cs. frames rt (Fin g) (Fin d) c (map Fin ts) = Some cs \<and>
      successively jsLe (count c # map count cs)"
proof (induction ts arbitrary: c u s)
  case Nil
  then show ?case by simp
next
  case (Cons t ts)
  show ?case
  proof (cases "rafPending c")
    case False
    then show ?thesis by simp
  next
    case True
    let ?s = "if s = 0 then t else s"
    let ?n = "mathFloor (jsMul (easeOutQuart rt (progressOf (jsSub (Fin t) (Fin ?s)) (Fin d))) (Fin g))"
    let ?c = "\<lparr>count = ?n, startTime = Some (Fin ?s),
        rafPending = jsLess (progressOf (jsSub (Fin t) (Fin ?s)) (Fin d)) (Fin 1)\<rparr>"
    from Cons.prems(2) have st: "startOf c (Fin t) = Fin ?s"
      by (simp add: startOf_def)
    from d have a: "animate rt (Fin g) (Fin d) c (Fin t) = Some ?c"
      by (simp add: animate_Some st)
    from Cons.prems(1) have le: "u \<le> t" and srt: "sorted (t # ts)"
      by simp_all
    have up: "jsLe (count c) ?n"
    proof (cases "s = 0")
      case True
      with Cons.prems(4) have "u = 0" by simp
      with True Cons.prems(5) have "count c =
          mathFloor (jsMul (easeOutQuart rt (progressOf (jsSub (Fin t) (Fin t)) (Fin d))) (Fin g))"
        by simp
      moreover have "jsLe
          (mathFloor (jsMul (easeOutQuart rt (progressOf (jsSub (Fin t) (Fin t)) (Fin d))) (Fin g)))
          (mathFloor (jsMul (easeOutQuart rt (progressOf (jsSub (Fin t) (Fin t)) (Fin d))) (Fin g)))"
        using rt g d by (intro frame_count_mono) simp_all
      ultimately show ?thesis using True by simp
    next
      case False
      with frame_count_mono [OF rt g d Cons.prems(3) le] Cons.prems(5) show ?thesis
        by simp
    qed
    have "?s \<le> t" using Cons.prems(3) le by simp
    moreover have "?s = 0 \<longrightarrow> t = 0" by simp
    moreover have "startTime ?c = Some (Fin ?s)" by simp
    moreover have "count ?c = ?n" by simp
    ultimately obtain cs where cs: "frames rt (Fin g) (Fin d) ?c (map Fin ts) = Some cs"
      "successively jsLe (count ?c # map count cs)"
      using Cons.IH [OF srt, of ?c ?s] by blast
    from cs(2) up have "successively jsLe (count c # map count (?c # cs))"
      by simp
    with True a cs(1) show ?thesis by simp
  qed
qed

lemma isDouble_dyadic:
  assumes "\<bar>m\<bar> < 2 ^ 53" and "n \<le> 1074"
  shows "isDouble (of_int m / 2 ^ n)"
proof -
  have "real_of_int m / 2 ^ n = of_int m * 2 powi (- int n)"
    by (simp add: power_int_minus field_simps)
  moreover from assms(2) have "- 1074 \<le> - int n" "- int n \<le> 971" by simp_all
  ultimately show ?thesis using assms(1) by (intro isDouble_representable)
qed

lemma round64_dyadic:
  "\<bar>m\<bar> < 2 ^ 53 \<Longrightarrow> n \<le> 1074 \<Longrightarrow> round64 (of_int m / 2 ^ n) = Fin (of_int m / 2 ^ n)"
  using isDouble_dyadic [of m n] by (simp add: isDouble_def)

lemma round64_of_int:
  "\<bar>k\<bar> < 2 ^ 53 \<Longrightarrow> round64 (of_int k) = Fin (of_int k)"
  using isDouble_of_int [of k] by (simp add: isDouble_def)

text \<open>
  C4, for integer targets. With a positive duration and a target that is an integer, on
  every runtime: on a frame whose elapsed time has reached the duration (as the code
  computes it, which is the case whenever the exact difference of timestamp and start
  has reached it), \<open>animate\<close> sets the count to the target and requests no frame, and any
  frames delivered afterwards do not run; on a frame whose computed elapsed time is less
  than the duration another frame is requested. So a started animation whose first
  timestamp is not zero ends with the count equal to the target as soon as the
  timestamps reach the duration.
\<close>

theorem counter_ends_at_target:
  assumes "0 < d" and "isDouble d" and "isDouble (of_int k)"
  shows "(jsLe (Fin d) (jsSub t (startOf c t)) \<longrightarrow>
      animate rt (Fin (of_int k)) (Fin d) c t =
        Some \<lparr>count = Fin (of_int k), startTime = Some (startOf c t), rafPending = False\<rparr> \<and>
      frames rt (Fin (of_int k)) (Fin d)
        \<lparr>count = Fin (of_int k), startTime = Some (startOf c t), rafPending = False\<rparr> ts = Some []) \<and>
    (startOf c (Fin x) = Fin s \<and> d \<le> x - s \<longrightarrow>
      animate rt (Fin (of_int k)) (Fin d) c (Fin x) =
        Some \<lparr>count = Fin (of_int k), startTime = Some (Fin s), rafPending = False\<rparr>) \<and>
    (jsLess (jsSub t (startOf c t)) (Fin d) \<longrightarrow>
      (\<exists>c'. animate rt (Fin (of_int k)) (Fin d) c t = Some c' \<and> rafPending c')) \<and>
    (t0 \<noteq> 0 \<and> (\<exists>x \<in> set xs. d \<le> x - t0) \<longrightarrow>
      (\<exists>cs. frames rt (Fin (of_int k)) (Fin d) counterStarted (map Fin (t0 # xs)) = Some cs \<and>
         cs \<noteq> [] \<and> count (last cs) = Fin (of_int k) \<and> \<not> rafPending (last cs)))"
proof (intro conjI impI)
  assume "jsLe (Fin d) (jsSub t (startOf c t))"
  with assms(1,3) show "animate rt (Fin (of_int k)) (Fin d) c t =
      Some \<lparr>count = Fin (of_int k), startTime = Some (startOf c t), rafPending = False\<rparr>"
    by (rule final_frame)
  show "frames rt (Fin (of_int k)) (Fin d)
      \<lparr>count = Fin (of_int k), startTime = Some (startOf c t), rafPending = False\<rparr> ts = Some []"
    by (rule frames_not_pending) simp
next
  assume a: "startOf c (Fin x) = Fin s \<and> d \<le> x - s"
  with assms(2) have "jsLe (Fin d) (jsSub (Fin x) (startOf c (Fin x)))"
    by (simp only: elapsed_reached)
  from final_frame [OF assms(1,3) this, of rt] a
  show "animate rt (Fin (of_int k)) (Fin d) c (Fin x) =
      Some \<lparr>count = Fin (of_int k), startTime = Some (Fin s), rafPending = False\<rparr>"
    by simp
next
  assume "jsLess (jsSub t (startOf c t)) (Fin d)"
  with assms(1,2) show "\<exists>c'. animate rt (Fin (of_int k)) (Fin d) c t = Some c' \<and> rafPending c'"
    using earlier_frame [of d t c rt "Fin (of_int k)"] by blast
next
  assume a: "t0 \<noteq> 0 \<and> (\<exists>x \<in> set xs. d \<le> x - t0)"
  have st: "startOf counterStarted (Fin t0) = Fin t0"
    by (simp add: startOf_def counterStarted_def)
  from frame_pending_or_final [OF assms(1,3) st, of rt]
  obtain c' where c': "animate rt (Fin (of_int k)) (Fin d) counterStarted (Fin t0) = Some c'"
    "startTime c' = Some (Fin t0)" "rafPending c' \<or> count c' = Fin (of_int k)"
    by blast
  have p: "rafPending counterStarted" by (simp add: counterStarted_def)
  show "\<exists>cs. frames rt (Fin (of_int k)) (Fin d) counterStarted (map Fin (t0 # xs)) = Some cs \<and>
      cs \<noteq> [] \<and> count (last cs) = Fin (of_int k) \<and> \<not> rafPending (last cs)"
  proof (cases "rafPending c'")
    case True
    from a frames_reach_target [OF assms a [THEN conjunct1] True c'(2), of xs rt]
    obtain cs where "frames rt (Fin (of_int k)) (Fin d) c' (map Fin xs) = Some cs" "cs \<noteq> []"
      "count (last cs) = Fin (of_int k)" "\<not> rafPending (last cs)"
      by blast
    with c'(1) p show ?thesis by simp
  next
    case False
    with c'(3) have "count c' = Fin (of_int k)" by simp
    moreover from False have "frames rt (Fin (of_int k)) (Fin d) c' (map Fin xs) = Some []"
      by (rule frames_not_pending)
    ultimately show ?thesis using c'(1) p False by simp
  qed
qed

theorem counter_ends_at_target_witness:
  "(0::real) < 2000 \<and> isDouble 2000 \<and> isDouble (of_int 20) \<and>
   jsLe (Fin 2000) (jsSub (Fin 3000)
     (startOf \<lparr>count = Fin 13, startTime = Some (Fin 1000), rafPending = True\<rparr> (Fin 3000))) \<and>
   animate roundedPow (Fin (of_int 20)) (Fin 2000)
     \<lparr>count = Fin 13, startTime = Some (Fin 1000), rafPending = True\<rparr> (Fin 3000) =
     Some \<lparr>count = Fin (of_int 20), startTime = Some (Fin 1000), rafPending = False\<rparr> \<and>
   startOf \<lparr>count = Fin 13, startTime = Some (Fin 1000), rafPending = True\<rparr> (Fin 3001) =
     Fin 1000 \<and> (2000::real) \<le> 3001 - 1000 \<and>
   animate roundedPow (Fin (of_int 20)) (Fin 2000)
     \<lparr>count = Fin 13, startTime = Some (Fin 1000), rafPending = True\<rparr> (Fin 3001) =
     Some \<lparr>count = Fin (of_int 20), startTime = Some (Fin 1000), rafPending = False\<rparr> \<and>
   jsLess (jsSub (Fin 1500)
     (startOf \<lparr>count = Fin 0, startTime = Some (Fin 1000), rafPending = True\<rparr> (Fin 1500)))
     (Fin 2000) \<and>
   (\<exists>c'. animate roundedPow (Fin (of_int 20)) (Fin 2000)
      \<lparr>count = Fin 0, startTime = Some (Fin 1000), rafPending = True\<rparr> (Fin 1500) = Some c' \<and>
      rafPending c') \<and>
   (1000::real) \<noteq> 0 \<and> (\<exists>x \<in> set [1500, 3000, 3016]. (2000::real) \<le> x - 1000) \<and>
   (\<exists>cs. frames roundedPow (Fin (of_int 20)) (Fin 2000) counterStarted
      (map Fin [1000, 1500, 3000, 3016]) = Some cs \<and>
      cs \<noteq> [] \<and> count (last cs) = Fin (of_int 20) \<and> \<not> rafPending (last cs))"
proof -
  let ?c = "\<lparr>count = Fin 13, startTime = Some (Fin 1000), rafPending = True\<rparr>"
  let ?b = "\<lparr>count = Fin 0, startTime = Some (Fin 1000), rafPending = True\<rparr>"
  have d: "(0::real) < 2000" by simp
  have dd: "isDouble 2000" using isDouble_of_int [of 2000] by simp
  have dk: "isDouble (of_int 20)" by (rule isDouble_of_int) simp
  have r1: "round64 2000 = Fin 2000" using round64_of_int [of 2000] by simp
  have r2: "round64 500 = Fin 500" using round64_of_int [of 500] by simp
  have s: "startOf ?c (Fin 3000) = Fin 1000" by (simp add: startOf_def)
  have e: "jsLe (Fin 2000) (jsSub (Fin 3000) (startOf ?c (Fin 3000)))"
    by (simp add: startOf_def r1)
  have l: "jsLess (jsSub (Fin 1500) (startOf ?b (Fin 1500))) (Fin 2000)"
    by (simp add: startOf_def r2)
  have r: "(1000::real) \<noteq> 0 \<and> (\<exists>x \<in> set [1500, 3000, 3016]. (2000::real) \<le> x - 1000)"
    by simp
  note t = counter_ends_at_target [OF d dd dk]
  note 1 = t [of "Fin 3000" ?c roundedPow "[]" 0 0 1000 "[]",
      THEN conjunct1, THEN mp, OF e, THEN conjunct1, unfolded s]
  have x: "startOf ?c (Fin 3001) = Fin 1000 \<and> (2000::real) \<le> 3001 - 1000"
    by (simp add: startOf_def)
  note 4 = t [of "Fin 3000" ?c roundedPow "[]" 3001 1000 1000 "[]",
      THEN conjunct2, THEN conjunct1, THEN mp, OF x]
  note 2 = t [of "Fin 1500" ?b roundedPow "[]" 0 0 1000 "[]",
      THEN conjunct2, THEN conjunct2, THEN conjunct1, THEN mp, OF l]
  note 3 = t [of "Fin 1500" ?b roundedPow "[]" 0 0 1000 "[1500, 3000, 3016]",
      THEN conjunct2, THEN conjunct2, THEN conjunct2, THEN mp, OF r]
  show ?thesis
    by (intro conjI)
       (rule d dd dk e 1 x [THEN conjunct1] x [THEN conjunct2] 4 l 2
          r [THEN conjunct1] r [THEN conjunct2] 3)+
qed

text \<open>
  C4 as stated, for every target value, fails for a target that is not an integer: with
  the target 2.5 the final frame shows \<open>Math.floor(2.5)\<close>, which is 2.
\<close>

theorem counter_fractional_target_counterexample:
  "jsLe (Fin 2000) (jsSub (Fin 3000)
     (startOf \<lparr>count = Fin 0, startTime = Some (Fin 1000), rafPending = True\<rparr> (Fin 3000))) \<and>
   animate roundedPow (Fin (5 / 2)) (Fin 2000)
     \<lparr>count = Fin 0, startTime = Some (Fin 1000), rafPending = True\<rparr> (Fin 3000) =
     Some \<lparr>count = Fin 2, startTime = Some (Fin 1000), rafPending = False\<rparr> \<and>
   Fin 2 \<noteq> Fin (5 / 2)"
proof -
  let ?c = "\<lparr>count = Fin 0, startTime = Some (Fin 1000), rafPending = True\<rparr>"
  have r1: "round64 2000 = Fin 2000" using round64_of_int [of 2000] by simp
  have r2: "round64 (5 / 2) = Fin (5 / 2)" using round64_dyadic [of 5 1] by simp
  have s: "startOf ?c (Fin 3000) = Fin 1000" by (simp add: startOf_def)
  have e: "jsLe (Fin 2000) (jsSub (Fin 3000) (startOf ?c (Fin 3000)))"
    by (simp add: s r1)
  then have p: "progressOf (jsSub (Fin 3000) (startOf ?c (Fin 3000))) (Fin 2000) = Fin 1"
    by (intro progressOf_complete) simp_all
  have "\<lfloor>5 / 2 :: real\<rfloor> = 2" by simp
  then have "animate roundedPow (Fin (5 / 2)) (Fin 2000) ?c (Fin 3000) =
      Some \<lparr>count = Fin 2, startTime = Some (Fin 1000), rafPending = False\<rparr>"
    using p by (simp add: animate_Some s easeOutQuart_1 r2)
  with e show ?thesis by simp
qed

text \<open>
  C5, with "not less" for "strictly greater". With a positive duration, a finite target
  that is not negative and finite timestamps that do not decrease, on a runtime whose
  \<open>Math.pow(x, 4)\<close> does not decrease in \<open>x\<close> between 0 and 1 and stays between 0 and 1
  there, every frame of a started animation runs, and the count set on a frame is never
  less than the count set on the frame before it. Subtraction, division and
  multiplication are correctly rounded and so monotone; for \<open>Math.pow\<close> the language
  promises only an approximation, which is why its monotonicity is a hypothesis.
\<close>

theorem counter_never_decreases:
  assumes "powMonotone rt" and "0 < d" and "isDouble g" and "0 \<le> g" and "sorted ts"
  shows "\<exists>cs. frames rt (Fin g) (Fin d) counterStarted (map Fin ts) = Some cs \<and>
    successively jsLe (map count cs) \<and>
    (\<forall>i. Suc i < length cs \<longrightarrow> jsLe (count (cs ! i)) (count (cs ! Suc i)))"
proof (cases ts)
  case Nil
  then show ?thesis by simp
next
  case (Cons t ts')
  let ?n = "mathFloor (jsMul (easeOutQuart rt (progressOf (jsSub (Fin t) (Fin t)) (Fin d))) (Fin g))"
  let ?c = "\<lparr>count = ?n, startTime = Some (Fin t),
      rafPending = jsLess (progressOf (jsSub (Fin t) (Fin t)) (Fin d)) (Fin 1)\<rparr>"
  have st: "startOf counterStarted (Fin t) = Fin t"
    by (simp add: startOf_def counterStarted_def)
  from assms(2) have a: "animate rt (Fin g) (Fin d) counterStarted (Fin t) = Some ?c"
    by (simp add: animate_Some st)
  from assms(5) Cons have srt: "sorted (t # ts')" by simp
  have "startTime ?c = Some (Fin t)" "t \<le> t" "t = 0 \<longrightarrow> t = 0" "count ?c = ?n"
    by simp_all
  from frames_successive [OF assms(1,3,4,2) srt this]
  obtain cs where cs: "frames rt (Fin g) (Fin d) ?c (map Fin ts') = Some cs"
    "successively jsLe (count ?c # map count cs)"
    by blast
  from a cs(1) Cons have f: "frames rt (Fin g) (Fin d) counterStarted (map Fin ts) = Some (?c # cs)"
    by (simp add: counterStarted_def)
  from cs(2) have s: "successively jsLe (map count (?c # cs))"
    by simp
  then have "successively (\<lambda>x y. jsLe (count x) (count y)) (?c # cs)"
    by (simp only: successively_map)
  then have "\<forall>i. Suc i < length (?c # cs) \<longrightarrow> jsLe (count ((?c # cs) ! i)) (count ((?c # cs) ! Suc i))"
    by (simp only: successively_conv_nth)
  with f s show ?thesis by blast
qed

theorem counter_never_decreases_witness:
  "powMonotone roundedPow \<and> (0::real) < 2000 \<and> isDouble 20 \<and> (0::real) \<le> 20 \<and>
   sorted [1000, 1500, 3000 :: real] \<and>
   (\<exists>cs. frames roundedPow (Fin 20) (Fin 2000) counterStarted (map Fin [1000, 1500, 3000]) = Some cs \<and>
      successively jsLe (map count cs) \<and>
      (\<forall>i. Suc i < length cs \<longrightarrow> jsLe (count (cs ! i)) (count (cs ! Suc i))))"
proof -
  have d: "(0::real) < 2000" and g: "(0::real) \<le> 20" and s: "sorted [1000, 1500, 3000 :: real]"
    by simp_all
  have dg: "isDouble 20" using isDouble_of_int [of 20] by simp
  note t = counter_never_decreases [OF roundedPow_monotone d dg g s]
  show ?thesis
    by (intro conjI) (rule roundedPow_monotone d dg g s t)+
qed

text \<open>
  C5 as stated fails: with the target 20 and the duration 2000, the frames at the
  timestamps 1000 and 1015.625 both run before the animation ends and both set the count
  0. Every value of this computation is a double, so no operation rounds.
\<close>

theorem counter_strict_increase_counterexample:
  "frames roundedPow (Fin 20) (Fin 2000) counterStarted [Fin 1000, Fin (8125 / 8)] =
     Some [\<lparr>count = Fin 0, startTime = Some (Fin 1000), rafPending = True\<rparr>,
           \<lparr>count = Fin 0, startTime = Some (Fin 1000), rafPending = True\<rparr>] \<and>
   \<not> jsLess (count \<lparr>count = Fin 0, startTime = Some (Fin 1000), rafPending = True\<rparr>)
     (count \<lparr>count = Fin 0, startTime = Some (Fin 1000), rafPending = True\<rparr>)"
proof -
  let ?c = "\<lparr>count = Fin 0, startTime = Some (Fin 1000), rafPending = True\<rparr>"
  have 1: "animate roundedPow (Fin 20) (Fin 2000) counterStarted (Fin 1000) = Some ?c"
    by (simp add: animate_def startOf_def progressOf_def easeOutQuart_def counterStarted_def
        roundedPow_def)
  have e: "round64 (125 / 8) = Fin (125 / 8)" using round64_dyadic [of 125 3] by simp
  have q: "round64 (1 / 128) = Fin (1 / 128)" using round64_dyadic [of 1 7] by simp
  have u: "round64 (127 / 128) = Fin (127 / 128)" using round64_dyadic [of 127 7] by simp
  have b: "round64 (260144641 / 268435456) = Fin (260144641 / 268435456)"
    using round64_dyadic [of 260144641 28] by simp
  have c: "round64 (8290815 / 268435456) = Fin (8290815 / 268435456)"
    using round64_dyadic [of 8290815 28] by simp
  have m: "round64 (41454075 / 67108864) = Fin (41454075 / 67108864)"
    using round64_dyadic [of 41454075 26] by simp
  have f: "\<lfloor>41454075 / 67108864 :: real\<rfloor> = 0" by simp
  have "jsSub (Fin (8125 / 8)) (Fin 1000) = Fin (125 / 8)" by (simp add: e)
  then have p: "progressOf (jsSub (Fin (8125 / 8)) (Fin 1000)) (Fin 2000) = Fin (1 / 128)"
    by (simp add: progressOf_def q)
  have s: "jsSub (Fin 1) (Fin (1 / 128)) = Fin (127 / 128)" by (simp add: u)
  have w: "(127 / 128 :: real) ^ 4 = 260144641 / 268435456" by (simp add: power_divide)
  have "pow4 roundedPow (127 / 128) = Fin (260144641 / 268435456)"
    unfolding roundedPow_def by (simp only: runtime.simps w b)
  then have "mathPow4 roundedPow (jsSub (Fin 1) (Fin (1 / 128))) = Fin (260144641 / 268435456)"
    unfolding s by simp
  then have "easeOutQuart roundedPow (Fin (1 / 128)) = Fin (8290815 / 268435456)"
    by (simp add: easeOutQuart_def c)
  then have "mathFloor (jsMul (easeOutQuart roundedPow (Fin (1 / 128))) (Fin 20)) = Fin 0"
    by (simp add: m f)
  with p have 2: "animate roundedPow (Fin 20) (Fin 2000) ?c (Fin (8125 / 8)) = Some ?c"
    by (simp add: animate_Some startOf_def)
  from 1 2 show ?thesis
    by (simp add: counterStarted_def)
qed

section \<open>Frames on which rounding decides\<close>

lemma expOf_eq:
  assumes "2 powi (e + 52) \<le> \<bar>x\<bar>" and "\<bar>x\<bar> < 2 powi (e + 53)" and "- 1074 \<le> e"
  shows "expOf x = e"
proof -
  have "e + 52 + 1 = e + 53" by simp
  with assms(2) have "\<bar>x\<bar> < 2 powi (e + 52 + 1)" by (simp only:)
  with assms(1) have "ilog2 \<bar>x\<bar> = e + 52" by (rule ilog2_unique)
  with assms(3) show ?thesis by (simp add: expOf_def)
qed

lemma isDouble_bound:
  assumes "isDouble y"
  shows "\<bar>y\<bar> < 2 ^ 1024"
proof -
  from assms have "rnd y = y" by (rule isDouble_rnd)
  with assms show ?thesis
    by (simp add: isDouble_def round64_cases abs_less_iff split: if_splits)
qed

lemma round64_eval:
  assumes "2 powi (e + 52) \<le> \<bar>x\<bar>" and "\<bar>x\<bar> < 2 powi (e + 53)" and "- 1074 \<le> e" and "e \<le> 971"
    and "rne (x / 2 powi e) = n" and "\<bar>n\<bar> < 2 ^ 53"
  shows "round64 x = Fin (of_int n * 2 powi e)"
proof -
  have "(0::real) < 2 powi (e + 52)" by simp
  with assms(1) have "0 < \<bar>x\<bar>" by linarith
  then have x: "x \<noteq> 0" by simp
  from assms(1-3) have "expOf x = e" by (rule expOf_eq)
  with x assms(5) have r: "rnd x = of_int n * 2 powi e" by (simp add: rnd_def)
  have "isDouble (of_int n * 2 powi e)"
    using assms(6,3,4) by (intro isDouble_representable [OF refl])
  then have "\<bar>of_int n * 2 powi e\<bar> < (2::real) ^ 1024" by (rule isDouble_bound)
  with r show ?thesis by (simp add: round64_cases abs_less_iff)
qed

lemma rq: "round64 (1 / 5) = Fin (3602879701896397 / 18014398509481984)"
  using round64_eval [of "- 55" "1 / 5" 7205759403792794]
  by (simp add: power_int_minus rne_def)

text \<open>
  Two frames on which rounding decides the result. With target 625 and duration 2000, the
  frame 400 after the start sets 368, where the exact value of the easing formula is 369.
  With the start at the double nearest 1000.1 and the duration 2000, the frame at the
  double nearest 3000.1 is final: the exact difference is below 2000 and rounds to 2000.
\<close>

lemma rounded_intermediate_frame:
  "animate roundedPow (Fin 625) (Fin 2000)
     \<lparr>count = Fin 0, startTime = Some (Fin 1000), rafPending = True\<rparr> (Fin 1400) =
   Some \<lparr>count = Fin 368, startTime = Some (Fin 1000), rafPending = True\<rparr>"
proof -
  let ?c = "\<lparr>count = Fin 0, startTime = Some (Fin 1000), rafPending = True\<rparr>"
  have e: "round64 400 = Fin 400" using round64_of_int [of 400] by simp
  have q: "round64 (1 / 5) = Fin (3602879701896397 / 18014398509481984)"
    using round64_eval [of "- 55" "1 / 5" 7205759403792794]
    by (simp add: power_int_minus rne_def)
  have a: "round64 (14411518807585587 / 18014398509481984) = Fin (3602879701896397 / 4503599627370496)"
    using round64_eval [of "- 53" "14411518807585587 / 18014398509481984" 7205759403792794]
    by (simp add: power_int_minus rne_def)
  have b: "round64 ((3602879701896397 / 4503599627370496) ^ 4) = Fin (3689348814741911 / 9007199254740992)"
    using round64_eval [of "- 54" "(3602879701896397 / 4503599627370496) ^ 4" 7378697629483822]
    by (simp add: power_int_minus rne_def power_divide)
  have c: "round64 (5317850439999081 / 9007199254740992) = Fin (5317850439999081 / 9007199254740992)"
    using round64_dyadic [of 5317850439999081 53] by simp
  have m: "round64 (3323656524999425625 / 9007199254740992) = Fin (6491516650389503 / 17592186044416)"
    using round64_eval [of "- 44" "3323656524999425625 / 9007199254740992" 6491516650389503]
    by (simp add: power_int_minus rne_def)
  have f: "\<lfloor>6491516650389503 / 17592186044416 :: real\<rfloor> = 368" by simp
  have s: "startOf ?c (Fin 1400) = Fin 1000" by (simp add: startOf_def)
  have p: "progressOf (jsSub (Fin 1400) (Fin 1000)) (Fin 2000) = Fin (3602879701896397 / 18014398509481984)"
    by (simp add: progressOf_def e q)
  have u: "jsSub (Fin 1) (Fin (3602879701896397 / 18014398509481984)) = Fin (3602879701896397 / 4503599627370496)"
    by (simp add: a)
  have "pow4 roundedPow (3602879701896397 / 4503599627370496) = Fin (3689348814741911 / 9007199254740992)"
    unfolding roundedPow_def by (simp only: runtime.simps b)
  then have w: "mathPow4 roundedPow (Fin (3602879701896397 / 4503599627370496)) = Fin (3689348814741911 / 9007199254740992)"
    by simp
  have "easeOutQuart roundedPow (Fin (3602879701896397 / 18014398509481984)) = Fin (5317850439999081 / 9007199254740992)"
    unfolding easeOutQuart_def u w by (simp add: c)
  then have "mathFloor (jsMul (easeOutQuart roundedPow (Fin (3602879701896397 / 18014398509481984))) (Fin 625)) = Fin 368"
    by (simp add: m f)
  with p show ?thesis
    by (simp add: animate_Some s)
qed

lemma rounded_final_frame:
  "(6597289668981555 / 2199023255552 :: real) - 8796972631510221 / 8796093022208 < 2000 \<and>
   animate roundedPow (Fin 20) (Fin 2000)
     \<lparr>count = Fin 0, startTime = Some (Fin (8796972631510221 / 8796093022208)), rafPending = True\<rparr>
     (Fin (6597289668981555 / 2199023255552)) =
   Some \<lparr>count = Fin 20, startTime = Some (Fin (8796972631510221 / 8796093022208)),
     rafPending = False\<rparr>"
proof -
  let ?s = "8796972631510221 / 8796093022208 :: real"
  let ?t = "6597289668981555 / 2199023255552 :: real"
  let ?c = "\<lparr>count = Fin 0, startTime = Some (Fin ?s), rafPending = True\<rparr>"
  have s: "startOf ?c (Fin ?t) = Fin ?s" by (simp add: startOf_def)
  have e: "round64 (?t - ?s) = Fin 2000"
    using round64_eval [of "- 42" "?t - ?s" 8796093022208000]
    by (simp add: power_int_minus rne_def)
  then have "jsLe (Fin 2000) (jsSub (Fin ?t) (startOf ?c (Fin ?t)))"
    by (simp add: s)
  moreover have "isDouble (of_int 20)" by (rule isDouble_of_int) simp
  ultimately have "animate roundedPow (Fin (of_int 20)) (Fin 2000) ?c (Fin ?t) =
      Some \<lparr>count = Fin (of_int 20), startTime = Some (startOf ?c (Fin ?t)), rafPending = False\<rparr>"
    by (intro final_frame) simp_all
  then show ?thesis by (simp add: s)
qed

end
